theory Spec2Isabelle
  imports Main "HOL-Library.Log_Nat"
begin

section \<open>Event documents\<close>

text \<open>
  An event is a JavaScript object whose keys are the ones of the schema documented in
  \<^verbatim>\<open>EventsCollection.js\<close>. Every key is either missing from the object (\<open>Absent\<close>, reading
  it gives \<^verbatim>\<open>undefined\<close>), is there and holds \<^verbatim>\<open>undefined\<close> (\<open>Undefined\<close>, as in
  \<^verbatim>\<open>{ _id: undefined }\<close>), holds \<^verbatim>\<open>null\<close> (\<open>Null\<close>), or holds a value of the type the schema gives
  it (\<open>Val\<close>). Payloads sent by a caller and documents of the collection have the same
  shape, so a payload can carry any key of the schema, also \<^verbatim>\<open>ownerId\<close> or \<^verbatim>\<open>isCompleted\<close>.
  Strings are lists of 8-bit code units.

  A Date object is its time value: \<open>Time t\<close>, with \<open>t\<close> the milliseconds since the epoch (an
  integer of at most 8.64e15 in absolute value), or \<open>Invalid\<close> for the time value \<^verbatim>\<open>NaN\<close>.
\<close>

datatype 'a field = Absent | Undefined | Null | Val 'a

datatype date = Invalid | Time int

record event =
  doc_id :: "string field"
  fishId :: "string field"
  targetType :: "string field"
  type :: "string field"
  title :: "string field"
  description :: "string field"
  scheduledAt :: "date field"
  completedAt :: "date field"
  isCompleted :: "bool field"
  priority :: "string field"
  recurrence :: "string field"
  nextOccurrence :: "date field"
  notes_f :: "string field"
  ownerId :: "string field"
  createdAt :: "date field"
  updatedAt :: "date field"

text \<open>The object \<^verbatim>\<open>{}\<close>.\<close>

definition empty_event :: event where
  "empty_event = \<lparr> doc_id = Absent, fishId = Absent, targetType = Absent, type = Absent,
     title = Absent, description = Absent, scheduledAt = Absent, completedAt = Absent,
     isCompleted = Absent, priority = Absent, recurrence = Absent, nextOccurrence = Absent,
     notes_f = Absent, ownerId = Absent, createdAt = Absent, updatedAt = Absent \<rparr>"

text \<open>
  The spread \<^verbatim>\<open>{ ...a, ...b }\<close>, and likewise what \<^verbatim>\<open>$set: b\<close> does to a stored document
  \<open>a\<close>: every key that \<open>b\<close> has replaces the one of \<open>a\<close>.
\<close>

definition over :: "'a field \<Rightarrow> 'a field \<Rightarrow> 'a field" where
  "over x y = (case y of Absent \<Rightarrow> x | _ \<Rightarrow> y)"

text \<open>\<^verbatim>\<open>x === undefined\<close>, for a key read from an object.\<close>

definition is_undefined :: "'a field \<Rightarrow> bool" where
  "is_undefined x = (x = Absent \<or> x = Undefined)"

definition spread :: "event \<Rightarrow> event \<Rightarrow> event" where
  "spread a b = \<lparr> doc_id = over (doc_id a) (doc_id b), fishId = over (fishId a) (fishId b),
     targetType = over (targetType a) (targetType b), type = over (type a) (type b),
     title = over (title a) (title b), description = over (description a) (description b),
     scheduledAt = over (scheduledAt a) (scheduledAt b),
     completedAt = over (completedAt a) (completedAt b),
     isCompleted = over (isCompleted a) (isCompleted b),
     priority = over (priority a) (priority b), recurrence = over (recurrence a) (recurrence b),
     nextOccurrence = over (nextOccurrence a) (nextOccurrence b), notes_f = over (notes_f a) (notes_f b),
     ownerId = over (ownerId a) (ownerId b), createdAt = over (createdAt a) (createdAt b),
     updatedAt = over (updatedAt a) (updatedAt b) \<rparr>"

subsection \<open>Truthiness and strings\<close>

text \<open>
  What \<^verbatim>\<open>if (x)\<close>, \<^verbatim>\<open>!x\<close>, \<^verbatim>\<open>x || y\<close> and \<^verbatim>\<open>x ? a : b\<close> test: \<^verbatim>\<open>undefined\<close>, \<^verbatim>\<open>null\<close>, the empty
  string and \<^verbatim>\<open>false\<close> are falsy, every Date object is truthy.
\<close>

fun truthy_str :: "string field \<Rightarrow> bool" where
  "truthy_str (Val s) = (s \<noteq> [])"
| "truthy_str _ = False"

fun truthy_bool :: "bool field \<Rightarrow> bool" where
  "truthy_bool (Val b) = b"
| "truthy_bool _ = False"

fun truthy_date :: "date field \<Rightarrow> bool" where
  "truthy_date (Val t) = True"
| "truthy_date _ = False"

text \<open>
  \<^verbatim>\<open>a < b\<close> and \<^verbatim>\<open>a <= b\<close> on two Dates compare their time values; a comparison with \<^verbatim>\<open>NaN\<close> is
  false.
\<close>

fun date_lt :: "date \<Rightarrow> date \<Rightarrow> bool" where
  "date_lt (Time a) (Time b) = (a < b)"
| "date_lt _ _ = False"

fun date_le :: "date \<Rightarrow> date \<Rightarrow> bool" where
  "date_le (Time a) (Time b) = (a \<le> b)"
| "date_le _ _ = False"

text \<open>\<^verbatim>\<open>check(x, String)\<close> and \<^verbatim>\<open>check(x, Date)\<close> of Meteor pass on a value of the type only.\<close>

fun is_val :: "'a field \<Rightarrow> bool" where
  "is_val (Val v) = True"
| "is_val _ = False"

text \<open>\<^verbatim>\<open>Array.prototype.includes\<close> on an array of strings.\<close>

fun includes_str :: "string list \<Rightarrow> string field \<Rightarrow> bool" where
  "includes_str xs (Val s) = (s \<in> set xs)"
| "includes_str xs _ = False"

text \<open>\<^verbatim>\<open>String.prototype.trim\<close>: the white space and line terminators among the 8-bit code units.\<close>

definition is_ws :: "char \<Rightarrow> bool" where
  "is_ws c = ((of_char c :: nat) \<in> {9, 10, 11, 12, 13, 32, 160})"

definition trim :: "string \<Rightarrow> string" where
  "trim s = rev (dropWhile is_ws (rev (dropWhile is_ws s)))"

section \<open>Validation (\<^verbatim>\<open>validateEventData\<close>)\<close>

text \<open>
  The messages the validator pushes, one constructor for each, in the order of the source:
  \<^item> \<open>BadTargetType\<close>: "Le type de cible doit etre : fish, aquarium"
  \<^item> \<open>FishIdRequired\<close>: "L'ID du poisson est obligatoire pour les evenements de poisson"
  \<^item> \<open>BadType\<close>: "Le type d'evenement doit etre : feeding, cleaning, ..."
  \<^item> \<open>AquariumMedicationTarget\<close>: "Les traitements d'aquarium doivent avoir targetType = aquarium"
  \<^item> \<open>TitleRequired\<close>: "Le titre de l'evenement est obligatoire"
  \<^item> \<open>TitleTooShort\<close>: "Le titre doit contenir au moins 2 caracteres"
  \<^item> \<open>TitleTooLong\<close>: "Le titre ne peut pas depasser 100 caracteres"
  \<^item> \<open>ScheduledAtRequired\<close>: "La date prevue est obligatoire"
  \<^item> \<open>ScheduledAtBefore2020\<close>: "La date prevue ne peut pas etre anterieure a 2020"
  \<^item> \<open>BadPriority\<close>: "La priorite doit etre : low, medium, high"
  \<^item> \<open>BadRecurrence\<close>: "La recurrence doit etre : daily, weekly, monthly"
  \<^item> \<open>DescriptionTooLong\<close>: "La description ne peut pas depasser 500 caracteres"
  \<^item> \<open>NotesTooLong\<close>: "Les notes ne peuvent pas depasser 500 caracteres"
  \<^item> \<open>CompletedBeforeScheduled\<close>: "La date de realisation ne peut pas etre anterieure a la
    date prevue"
\<close>

datatype violation =
    BadTargetType | FishIdRequired | BadType | AquariumMedicationTarget
  | TitleRequired | TitleTooShort | TitleTooLong
  | ScheduledAtRequired | ScheduledAtBefore2020
  | BadPriority | BadRecurrence | DescriptionTooLong | NotesTooLong
  | CompletedBeforeScheduled

record validation =
  isValid :: bool
  errors :: "violation list"

definition validTargetTypes :: "string list" where
  "validTargetTypes = [''fish'', ''aquarium'']"

text \<open>\<^verbatim>\<open>Object.keys(EVENT_TYPES)\<close>, \<^verbatim>\<open>Object.keys(EVENT_PRIORITIES)\<close>, \<^verbatim>\<open>Object.keys(EVENT_RECURRENCES)\<close>.\<close>

definition validTypes :: "string list" where
  "validTypes = [''feeding'', ''cleaning'', ''water_change'', ''medication'',
     ''aquarium_medication'', ''observation'', ''maintenance'', ''other'']"

definition validPriorities :: "string list" where
  "validPriorities = [''low'', ''medium'', ''high'']"

definition validRecurrences :: "string list" where
  "validRecurrences = [''daily'', ''weekly'', ''monthly'']"

text \<open>\<^verbatim>\<open>new Date('2020-01-01')\<close>: midnight UTC of 1 January 2020.\<close>

definition date_2020_01_01 :: date where
  "date_2020_01_01 = Time 1577836800000"

text \<open>Each \<open>errors_*\<close> is one \<^verbatim>\<open>if\<close> block of the source: the messages it pushes.\<close>

definition errors_targetType :: "event \<Rightarrow> violation list" where
  "errors_targetType eventData =
     (if \<not> truthy_str (targetType eventData) \<or> \<not> includes_str validTargetTypes (targetType eventData)
      then [BadTargetType] else [])"

definition errors_fishId :: "event \<Rightarrow> violation list" where
  "errors_fishId eventData =
     (if targetType eventData = Val ''fish''
      then (if \<not> truthy_str (fishId eventData) then [FishIdRequired] else [])
      else [])"

definition errors_type :: "event \<Rightarrow> violation list" where
  "errors_type eventData =
     (if \<not> truthy_str (type eventData) \<or> \<not> includes_str validTypes (type eventData)
      then [BadType] else [])"

definition errors_coherence :: "event \<Rightarrow> violation list" where
  "errors_coherence eventData =
     (if type eventData = Val ''aquarium_medication'' \<and> targetType eventData \<noteq> Val ''aquarium''
      then [AquariumMedicationTarget] else [])"

definition errors_title :: "event \<Rightarrow> violation list" where
  "errors_title eventData =
     (case title eventData of
        Val s \<Rightarrow>
          if s = [] then [TitleRequired]
          else if length (trim s) < 2 then [TitleTooShort]
          else if length (trim s) > 100 then [TitleTooLong]
          else []
      | _ \<Rightarrow> [TitleRequired])"

definition errors_scheduledAt :: "event \<Rightarrow> violation list" where
  "errors_scheduledAt eventData =
     (case scheduledAt eventData of
        Val t \<Rightarrow> if date_lt t date_2020_01_01 then [ScheduledAtBefore2020] else []
      | _ \<Rightarrow> [ScheduledAtRequired])"

definition errors_priority :: "event \<Rightarrow> violation list" where
  "errors_priority eventData =
     (if truthy_str (priority eventData) \<and> \<not> includes_str validPriorities (priority eventData)
      then [BadPriority] else [])"

definition errors_recurrence :: "event \<Rightarrow> violation list" where
  "errors_recurrence eventData =
     (if truthy_str (recurrence eventData)
      then (if \<not> includes_str validRecurrences (recurrence eventData) then [BadRecurrence] else [])
      else [])"

definition errors_description :: "event \<Rightarrow> violation list" where
  "errors_description eventData =
     (case description eventData of
        Val s \<Rightarrow> if s \<noteq> [] \<and> length s > 500 then [DescriptionTooLong] else []
      | _ \<Rightarrow> [])"

definition errors_notes :: "event \<Rightarrow> violation list" where
  "errors_notes eventData =
     (case notes_f eventData of
        Val s \<Rightarrow> if s \<noteq> [] \<and> length s > 500 then [NotesTooLong] else []
      | _ \<Rightarrow> [])"

definition errors_completedAt :: "event \<Rightarrow> violation list" where
  "errors_completedAt eventData =
     (case (completedAt eventData, scheduledAt eventData) of
        (Val c, Val s) \<Rightarrow> if date_lt c s then [CompletedBeforeScheduled] else []
      | _ \<Rightarrow> [])"

definition validateEventData :: "event \<Rightarrow> validation" where
  "validateEventData eventData =
     (let errs = errors_targetType eventData @ errors_fishId eventData @ errors_type eventData
            @ errors_coherence eventData @ errors_title eventData @ errors_scheduledAt eventData
            @ errors_priority eventData @ errors_recurrence eventData
            @ errors_description eventData @ errors_notes eventData
            @ errors_completedAt eventData
      in \<lparr> isValid = (length errs = 0), errors = errs \<rparr>)"

section \<open>The date library\<close>

text \<open>
  \<^verbatim>\<open>calculateNextOccurrence\<close> and the statistics go through the methods of \<^verbatim>\<open>Date\<close>. They are
  modelled by the abstract operations that the ECMAScript standard defines them with. The
  operations on days, months and years work on integer time values; the methods of a Date
  come after them.
\<close>

definition msPerDay :: int where
  "msPerDay = 86400000"

definition Day :: "int \<Rightarrow> int" where
  "Day t = t div msPerDay"

definition TimeWithinDay :: "int \<Rightarrow> int" where
  "TimeWithinDay t = t mod msPerDay"

definition DaysInYear :: "int \<Rightarrow> int" where
  "DaysInYear y =
     (if y mod 4 \<noteq> 0 then 365 else if y mod 100 \<noteq> 0 then 366
      else if y mod 400 \<noteq> 0 then 365 else 366)"

definition DayFromYear :: "int \<Rightarrow> int" where
  "DayFromYear y =
     365 * (y - 1970) + (y - 1969) div 4 - (y - 1901) div 100 + (y - 1601) div 400"

text \<open>
  The standard asks for the largest year \<open>y\<close> with \<open>DayFromYear y \<le> Day t\<close>. The mean length of a
  year gives an estimate that is off by one at most (lemma \<open>YearFromTime_bounds\<close> below).
\<close>

definition YearFromTime :: "int \<Rightarrow> int" where
  "YearFromTime t =
     (let d = Day t; y = 1970 + (400 * d) div 146097
      in if DayFromYear (y + 1) \<le> d then y + 1
         else if DayFromYear y \<le> d then y
         else y - 1)"

definition InLeapYear :: "int \<Rightarrow> int" where
  "InLeapYear t = (if DaysInYear (YearFromTime t) = 366 then 1 else 0)"

definition DayWithinYear :: "int \<Rightarrow> int" where
  "DayWithinYear t = Day t - DayFromYear (YearFromTime t)"

text \<open>The day of the year on which month \<open>m\<close> (0 to 11) starts; \<open>l\<close> is 1 in a leap year.\<close>

definition month_start :: "int \<Rightarrow> int \<Rightarrow> int" where
  "month_start l m =
     (if m = 0 then 0 else if m = 1 then 31 else if m = 2 then 59 + l
      else if m = 3 then 90 + l else if m = 4 then 120 + l else if m = 5 then 151 + l
      else if m = 6 then 181 + l else if m = 7 then 212 + l else if m = 8 then 243 + l
      else if m = 9 then 273 + l else if m = 10 then 304 + l else 334 + l)"

definition MonthFromTime :: "int \<Rightarrow> int" where
  "MonthFromTime t =
     (let d = DayWithinYear t; l = InLeapYear t
      in if d < 31 then 0 else if d < 59 + l then 1 else if d < 90 + l then 2
         else if d < 120 + l then 3 else if d < 151 + l then 4 else if d < 181 + l then 5
         else if d < 212 + l then 6 else if d < 243 + l then 7 else if d < 273 + l then 8
         else if d < 304 + l then 9 else if d < 334 + l then 10 else 11)"

definition DateFromTime :: "int \<Rightarrow> int" where
  "DateFromTime t = DayWithinYear t - month_start (InLeapYear t) (MonthFromTime t) + 1"

text \<open>
  \<open>MakeDay\<close>: the day number of the first of month \<open>month mod 12\<close> in year
  \<open>year + month div 12\<close>, plus \<open>date - 1\<close>. A month or a date out of range rolls over.
\<close>

definition MakeDay :: "int \<Rightarrow> int \<Rightarrow> int \<Rightarrow> int" where
  "MakeDay year month date =
     (let ym = year + month div 12; mn = month mod 12
      in DayFromYear ym + month_start (if DaysInYear ym = 366 then 1 else 0) mn + date - 1)"

definition MakeTime :: "int \<Rightarrow> int \<Rightarrow> int \<Rightarrow> int \<Rightarrow> int" where
  "MakeTime h m s ms = h * 3600000 + m * 60000 + s * 1000 + ms"

text \<open>\<open>MakeDate\<close> does not limit its result: the methods below do, with \<open>TimeClip\<close>.\<close>

definition MakeDate :: "int \<Rightarrow> int \<Rightarrow> int" where
  "MakeDate day time = day * msPerDay + time"

text \<open>
  \<open>TimeClip\<close>: a time value is at most 8.64e15 ms away from the epoch; beyond that the Date
  is invalid.
\<close>

definition TimeClip :: "int \<Rightarrow> date" where
  "TimeClip t = (if \<bar>t\<bar> > 8640000000000000 then Invalid else Time t)"

subsection \<open>The time zone of the host\<close>

text \<open>
  Local time is the time zone of the host, which the standard leaves to the
  implementation. \<open>LocalTime t\<close> adds to the instant \<open>t\<close> the offset from UTC that is in force at
  \<open>t\<close>; \<open>UTC t\<close> takes from the local time \<open>t\<close> the offset that the host gives to that local
  time (the standard says which one when a change of offset makes a local time occur
  twice or never). A time zone is these two offsets, in milliseconds; with daylight
  saving they change over the year.
\<close>

record zone =
  offset_at :: "int \<Rightarrow> int"
  offset_of_local :: "int \<Rightarrow> int"

definition LocalTime :: "zone \<Rightarrow> int \<Rightarrow> int" where
  "LocalTime z t = t + offset_at z t"

definition UTC :: "zone \<Rightarrow> int \<Rightarrow> int" where
  "UTC z t = t - offset_of_local z t"

text \<open>A host whose offset from UTC is \<open>k\<close> ms all the time; \<open>fixed_offset 0\<close> is a host in UTC.\<close>

definition fixed_offset :: "int \<Rightarrow> zone" where
  "fixed_offset k = \<lparr> offset_at = (\<lambda>t. k), offset_of_local = (\<lambda>t. k) \<rparr>"

text \<open>
  Europe/Paris with the changes of 2024: one hour ahead of UTC, and two hours from
  2024-03-31T01:00Z (1711846800000) until 2024-10-27T01:00Z (1729990800000). The local
  times from 02:00 to 03:00 of 31 March do not occur and take the offset before the
  change; those from 02:00 to 03:00 of 27 October occur twice and take the earlier one.
\<close>

definition paris :: zone where
  "paris = \<lparr> offset_at = (\<lambda>t. if 1711846800000 \<le> t \<and> t < 1729990800000
                               then 7200000 else 3600000),
             offset_of_local = (\<lambda>t. if 1711854000000 \<le> t \<and> t < 1729998000000
                                     then 7200000 else 3600000) \<rparr>"

subsection \<open>The methods of a Date\<close>

text \<open>
  \<^verbatim>\<open>new Date(value)\<close> copies a Date; \<^verbatim>\<open>new Date(null)\<close> is the epoch and \<^verbatim>\<open>new Date(undefined)\<close> is
  invalid. \<^verbatim>\<open>getDate\<close> and \<^verbatim>\<open>getMonth\<close> return a Number, \<^verbatim>\<open>NaN\<close> (\<open>None\<close>) for an invalid Date, and
  \<^verbatim>\<open>x + k\<close> on it is \<open>num_plus\<close>. The setters work in local time, return to UTC and clip; on an
  invalid Date or with \<^verbatim>\<open>NaN\<close> they give an invalid Date.
\<close>

definition new_Date :: "date field \<Rightarrow> date" where
  "new_Date v = (case v of Val d \<Rightarrow> d | Null \<Rightarrow> Time 0 | _ \<Rightarrow> Invalid)"

definition num_plus :: "int option \<Rightarrow> int \<Rightarrow> int option" where
  "num_plus x k = map_option (\<lambda>n. n + k) x"

definition getDate :: "zone \<Rightarrow> date \<Rightarrow> int option" where
  "getDate z d = (case d of Time tv \<Rightarrow> Some (DateFromTime (LocalTime z tv)) | Invalid \<Rightarrow> None)"

definition getMonth :: "zone \<Rightarrow> date \<Rightarrow> int option" where
  "getMonth z d = (case d of Time tv \<Rightarrow> Some (MonthFromTime (LocalTime z tv)) | Invalid \<Rightarrow> None)"

definition setDate :: "zone \<Rightarrow> date \<Rightarrow> int option \<Rightarrow> date" where
  "setDate z d date_arg =
     (case (d, date_arg) of
        (Time tv, Some dt) \<Rightarrow>
          (let t = LocalTime z tv
           in TimeClip (UTC z (MakeDate (MakeDay (YearFromTime t) (MonthFromTime t) dt)
                                       (TimeWithinDay t))))
      | _ \<Rightarrow> Invalid)"

definition setMonth :: "zone \<Rightarrow> date \<Rightarrow> int option \<Rightarrow> date" where
  "setMonth z d month_arg =
     (case (d, month_arg) of
        (Time tv, Some m) \<Rightarrow>
          (let t = LocalTime z tv
           in TimeClip (UTC z (MakeDate (MakeDay (YearFromTime t) m (DateFromTime t))
                                       (TimeWithinDay t))))
      | _ \<Rightarrow> Invalid)"

definition setHours :: "zone \<Rightarrow> date \<Rightarrow> int \<Rightarrow> int \<Rightarrow> int \<Rightarrow> int \<Rightarrow> date" where
  "setHours z d h m s ms =
     (case d of
        Time tv \<Rightarrow> (let t = LocalTime z tv
                    in TimeClip (UTC z (MakeDate (Day t) (MakeTime h m s ms))))
      | Invalid \<Rightarrow> Invalid)"

section \<open>Recurrence (\<^verbatim>\<open>calculateNextOccurrence\<close>)\<close>

text \<open>
  The parameter \<^verbatim>\<open>recurrence\<close> of the source is \<open>rule\<close> here, and \<open>z\<close> is the time zone of the
  host. The result is a Date (\<open>Val\<close>), which can be invalid, or, for any other rule,
  \<^verbatim>\<open>null\<close>.
\<close>

definition calculateNextOccurrence :: "zone \<Rightarrow> date field \<Rightarrow> string field \<Rightarrow> date field" where
  "calculateNextOccurrence z currentDate rule =
     (let nextDate = new_Date currentDate
      in if rule = Val ''daily'' then Val (setDate z nextDate (num_plus (getDate z nextDate) 1))
         else if rule = Val ''weekly'' then Val (setDate z nextDate (num_plus (getDate z nextDate) 7))
         else if rule = Val ''monthly''
              then Val (setMonth z nextDate (num_plus (getMonth z nextDate) 1))
         else Null)"

section \<open>The collection\<close>

text \<open>
  \<^verbatim>\<open>EventsCollection\<close> is a Mongo collection: here the list of its documents, in the order of
  their insertion. A selector is a list of conditions that a document has to meet all; only
  the conditions that the source writes are modelled. A condition on a key holds of a value
  of the key (never of \<^verbatim>\<open>null\<close> or of a missing key). A Date is kept as it is given.
\<close>

datatype cond =
    IdEq string             \<comment> \<open>\<^verbatim>\<open>_id: x\<close>\<close>
  | OwnerIdEq string        \<comment> \<open>\<^verbatim>\<open>ownerId: x\<close>\<close>
  | IsCompletedEq bool      \<comment> \<open>\<^verbatim>\<open>isCompleted: x\<close>\<close>
  | ScheduledAtLt date      \<comment> \<open>\<^verbatim>\<open>scheduledAt: { $lt: x }\<close>\<close>
  | ScheduledAtGte date     \<comment> \<open>\<^verbatim>\<open>scheduledAt: { $gte: x }\<close>\<close>
  | ScheduledAtLte date     \<comment> \<open>\<^verbatim>\<open>scheduledAt: { $lte: x }\<close>\<close>

fun holds :: "cond \<Rightarrow> event \<Rightarrow> bool" where
  "holds (IdEq x) d = (doc_id d = Val x)"
| "holds (OwnerIdEq x) d = (ownerId d = Val x)"
| "holds (IsCompletedEq x) d = (isCompleted d = Val x)"
| "holds (ScheduledAtLt x) d = (case scheduledAt d of Val t \<Rightarrow> date_lt t x | _ \<Rightarrow> False)"
| "holds (ScheduledAtGte x) d = (case scheduledAt d of Val t \<Rightarrow> date_le x t | _ \<Rightarrow> False)"
| "holds (ScheduledAtLte x) d = (case scheduledAt d of Val t \<Rightarrow> date_le t x | _ \<Rightarrow> False)"

definition matches :: "cond list \<Rightarrow> event \<Rightarrow> bool" where
  "matches sel d = list_all (\<lambda>c. holds c d) sel"

text \<open>\<^verbatim>\<open>findOneAsync(selector)\<close> and \<^verbatim>\<open>find(selector).countAsync()\<close>.\<close>

definition findOneAsync :: "cond list \<Rightarrow> event list \<Rightarrow> event option" where
  "findOneAsync sel docs = List.find (matches sel) docs"

definition countAsync :: "cond list \<Rightarrow> event list \<Rightarrow> nat" where
  "countAsync sel docs = length (filter (matches sel) docs)"

text \<open>
  The collection writes with the driver option \<^verbatim>\<open>ignoreUndefined\<close>: a key that holds
  \<^verbatim>\<open>undefined\<close> is not stored.
\<close>

definition drop_field :: "'a field \<Rightarrow> 'a field" where
  "drop_field x = (case x of Undefined \<Rightarrow> Absent | _ \<Rightarrow> x)"

definition drop_undefined :: "event \<Rightarrow> event" where
  "drop_undefined a = \<lparr> doc_id = drop_field (doc_id a), fishId = drop_field (fishId a),
     targetType = drop_field (targetType a), type = drop_field (type a),
     title = drop_field (title a),
     description = drop_field (description a), scheduledAt = drop_field (scheduledAt a),
     completedAt = drop_field (completedAt a), isCompleted = drop_field (isCompleted a),
     priority = drop_field (priority a), recurrence = drop_field (recurrence a),
     nextOccurrence = drop_field (nextOccurrence a), notes_f = drop_field (notes_f a),
     ownerId = drop_field (ownerId a), createdAt = drop_field (createdAt a),
     updatedAt = drop_field (updatedAt a) \<rparr>"

text \<open>
  \<^verbatim>\<open>insertAsync(doc)\<close> of a Meteor collection. When \<^verbatim>\<open>doc\<close> has the key \<^verbatim>\<open>_id\<close>
  (\<^verbatim>\<open>'_id' in doc\<close>), its value must be a non-empty string: the call throws otherwise
  ("Meteor requires document _id fields to be non-empty strings or ObjectIDs"), also for
  \<^verbatim>\<open>_id: undefined\<close> and \<^verbatim>\<open>_id: null\<close>; it throws as well when the id is already taken (the index
  on \<^verbatim>\<open>_id\<close> is unique). Only a document without the key gets the identifier \<open>newId\<close> that the
  generator of the collection draws. \<open>None\<close> is the exception; otherwise the result is the id
  and the new collection.
\<close>

definition has_id :: "string \<Rightarrow> event list \<Rightarrow> bool" where
  "has_id i docs = (Val i \<in> set (map doc_id docs))"

definition insertAsync :: "string \<Rightarrow> event \<Rightarrow> event list \<Rightarrow> (string \<times> event list) option" where
  "insertAsync newId doc docs =
     (case doc_id doc of
        Val i \<Rightarrow> if i = [] \<or> has_id i docs then None
                 else Some (i, docs @ [drop_undefined doc])
      | Absent \<Rightarrow> if newId = [] \<or> has_id newId docs then None
                  else Some (newId, docs @ [drop_undefined (doc\<lparr>doc_id := Val newId\<rparr>)])
      | _ \<Rightarrow> None)"

text \<open>
  \<^verbatim>\<open>updateAsync(id, { $set: modifier })\<close>: the first document with that id takes the keys of
  \<open>modifier\<close>; the result counts the documents changed. Mongo refuses to change \<^verbatim>\<open>_id\<close>: the
  call throws (\<open>None\<close>) when \<open>modifier\<close> carries another \<^verbatim>\<open>_id\<close> than the document has.
\<close>

fun set_first :: "string \<Rightarrow> event \<Rightarrow> event list \<Rightarrow> (nat \<times> event list) option" where
  "set_first i modifier [] = Some (0, [])"
| "set_first i modifier (d # docs) =
     (if doc_id d = Val i
      then (if doc_id modifier = Absent \<or> doc_id modifier = Val i
            then Some (1, spread d modifier # docs) else None)
      else (case set_first i modifier docs of
              None \<Rightarrow> None
            | Some (n, docs') \<Rightarrow> Some (n, d # docs')))"

definition updateAsync :: "string \<Rightarrow> event \<Rightarrow> event list \<Rightarrow> (nat \<times> event list) option" where
  "updateAsync i modifier docs = set_first i (drop_undefined modifier) docs"

text \<open>\<^verbatim>\<open>removeAsync(id)\<close>: the documents with that id go; the result counts them.\<close>

definition removeAsync :: "string \<Rightarrow> event list \<Rightarrow> nat \<times> event list" where
  "removeAsync i docs =
     (length (filter (\<lambda>d. doc_id d = Val i) docs), filter (\<lambda>d. doc_id d \<noteq> Val i) docs)"

section \<open>The methods (\<^verbatim>\<open>EventsMethods.js\<close>)\<close>

text \<open>
  What a method call finds around it: \<^verbatim>\<open>this.userId\<close> (\<open>None\<close> is \<^verbatim>\<open>null\<close>, nobody logged in), the
  clock, the time zone of the host, the identifier that the collection would draw for a new
  document, and the fish collection as the pairs of \<^verbatim>\<open>_id\<close> and \<^verbatim>\<open>ownerId\<close> of its documents.
  A call reads the clock each time it evaluates \<^verbatim>\<open>new Date()\<close>: \<open>clock e k\<close> is the time value it
  gets at the reading number \<open>k\<close> of the call (counted from 0, in the order of evaluation),
  and \<open>now e k\<close> that Date.
\<close>

record env =
  userId :: "string option"
  clock :: "nat \<Rightarrow> int"
  tz :: zone
  newId :: string
  fish :: "(string \<times> string) list"

definition now :: "env \<Rightarrow> nat \<Rightarrow> date" where
  "now e k = Time (clock e k)"

datatype error =
    NotAuthorized                       \<comment> \<open>\<^verbatim>\<open>not-authorized\<close>\<close>
  | MatchFailed                         \<comment> \<open>\<^verbatim>\<open>check\<close> threw\<close>
  | FishNotFound                        \<comment> \<open>\<^verbatim>\<open>fish-not-found\<close>\<close>
  | FishRequired                        \<comment> \<open>\<^verbatim>\<open>fish-required\<close>\<close>
  | ValidationError "violation list"    \<comment> \<open>\<^verbatim>\<open>validation-error\<close>, with the messages joined\<close>
  | EventNotFound                       \<comment> \<open>\<^verbatim>\<open>event-not-found\<close>\<close>
  | AlreadyCompleted                    \<comment> \<open>\<^verbatim>\<open>already-completed\<close>\<close>
  | InsertFailed                        \<comment> \<open>\<^verbatim>\<open>insert-failed\<close>\<close>
  | UpdateFailed                        \<comment> \<open>\<^verbatim>\<open>update-failed\<close>\<close>
  | DeleteFailed                        \<comment> \<open>\<^verbatim>\<open>delete-failed\<close>\<close>
  | CompleteFailed                      \<comment> \<open>\<^verbatim>\<open>complete-failed\<close>\<close>
  | StatsFailed                         \<comment> \<open>\<^verbatim>\<open>stats-failed\<close>\<close>

text \<open>\<^verbatim>\<open>!this.userId\<close> is false for a non-empty string only.\<close>

definition authenticated :: "env \<Rightarrow> bool" where
  "authenticated e = (case userId e of Some u \<Rightarrow> u \<noteq> [] | None \<Rightarrow> False)"

definition the_user :: "env \<Rightarrow> string" where
  "the_user e = (case userId e of Some u \<Rightarrow> u | None \<Rightarrow> [])"

text \<open>\<^verbatim>\<open>FishCollection.findOneAsync({ _id: f, ownerId: this.userId })\<close> finds a fish.\<close>

definition fish_found :: "env \<Rightarrow> string field \<Rightarrow> bool" where
  "fish_found e f = (case f of Val i \<Rightarrow> (i, the_user e) \<in> set (fish e) | _ \<Rightarrow> False)"

text \<open>\<^verbatim>\<open>x.trim()\<close> on a key that holds a string, and \<^verbatim>\<open>x || y\<close>.\<close>

definition trim_or_empty :: "string field \<Rightarrow> string field" where
  "trim_or_empty x = (case x of Val s \<Rightarrow> Val (trim s) | _ \<Rightarrow> Val [])"

definition or_else :: "string field \<Rightarrow> string field \<Rightarrow> string field" where
  "or_else x y = (if truthy_str x then x else y)"

text \<open>\<^verbatim>\<open>r ? calculateNextOccurrence(d, r) : null\<close>.\<close>

definition next_or_null :: "zone \<Rightarrow> date field \<Rightarrow> string field \<Rightarrow> date field" where
  "next_or_null z d r = (if truthy_str r then calculateNextOccurrence z d r else Null)"

subsection \<open>\<^verbatim>\<open>insertEvent\<close>\<close>

text \<open>
  A method returns its result, or the error it throws, together with the collection as
  it leaves it.
\<close>

definition eventToInsert :: "env \<Rightarrow> event \<Rightarrow> event" where
  "eventToInsert e eventData =
     eventData\<lparr>
       title := (case title eventData of Val s \<Rightarrow> Val (trim s) | x \<Rightarrow> x),
       description := (if truthy_str (description eventData)
                       then trim_or_empty (description eventData) else Val []),
       notes_f := (if truthy_str (notes_f eventData)
                   then trim_or_empty (notes_f eventData) else Val []),
       isCompleted := Val False,
       completedAt := Null,
       priority := or_else (priority eventData) (Val ''medium''),
       recurrence := or_else (recurrence eventData) Null,
       nextOccurrence := next_or_null (tz e) (scheduledAt eventData) (recurrence eventData),
       ownerId := Val (the_user e),
       createdAt := Val (now e 0),
       updatedAt := Val (now e 1) \<rparr>"

definition insertEvent :: "env \<Rightarrow> event list \<Rightarrow> event \<Rightarrow> (error + string) \<times> event list" where
  "insertEvent e docs eventData =
     (if \<not> authenticated e then (Inl NotAuthorized, docs)
      else if \<not> is_val (type eventData) \<or> \<not> is_val (title eventData)
              \<or> \<not> is_val (scheduledAt eventData) \<or> \<not> is_val (targetType eventData)
      then (Inl MatchFailed, docs)
      else if targetType eventData = Val ''fish'' \<and> \<not> is_val (fishId eventData)
      then (Inl MatchFailed, docs)
      else if targetType eventData = Val ''fish'' \<and> \<not> fish_found e (fishId eventData)
      then (Inl FishNotFound, docs)
      else let validation = validateEventData eventData
      in if \<not> isValid validation then (Inl (ValidationError (errors validation)), docs)
      else (case insertAsync (newId e) (eventToInsert e eventData) docs of
              None \<Rightarrow> (Inl InsertFailed, docs)
            | Some (eventId, docs') \<Rightarrow> (Inr eventId, docs')))"

subsection \<open>\<^verbatim>\<open>updateEvent\<close>\<close>

definition updateFields :: "env \<Rightarrow> event \<Rightarrow> event \<Rightarrow> event" where
  "updateFields e existingEvent updateData =
     (let f0 = updateData\<lparr> updatedAt := Val (now e 0) \<rparr>;
          f1 = (if truthy_str (title updateData) then f0\<lparr> title := trim_or_empty (title updateData) \<rparr> else f0);
          f2 = (if truthy_str (description updateData)
                then f1\<lparr> description := trim_or_empty (description updateData) \<rparr> else f1);
          f3 = (if truthy_str (notes_f updateData)
                then f2\<lparr> notes_f := trim_or_empty (notes_f updateData) \<rparr> else f2)
      in if truthy_str (recurrence updateData) \<or> truthy_date (scheduledAt updateData)
         then (let newScheduledAt = (if truthy_date (scheduledAt updateData)
                                     then scheduledAt updateData else scheduledAt existingEvent);
                   newRecurrence = (if \<not> is_undefined (recurrence updateData)
                                    then recurrence updateData else recurrence existingEvent)
               in f3\<lparr> nextOccurrence := next_or_null (tz e) newScheduledAt newRecurrence \<rparr>)
         else f3)"

definition updateEvent ::
  "env \<Rightarrow> event list \<Rightarrow> string \<Rightarrow> event \<Rightarrow> (error + bool) \<times> event list" where
  "updateEvent e docs eventId updateData =
     (if \<not> authenticated e then (Inl NotAuthorized, docs)
      else (case findOneAsync [IdEq eventId, OwnerIdEq (the_user e)] docs of
        None \<Rightarrow> (Inl EventNotFound, docs)
      | Some existingEvent \<Rightarrow>
          if truthy_str (fishId updateData) \<and> fishId updateData \<noteq> fishId existingEvent
             \<and> \<not> fish_found e (fishId updateData)
          then (Inl FishNotFound, docs)
          else if targetType updateData = Val ''fish'' \<and> \<not> truthy_str (fishId updateData)
                  \<and> \<not> truthy_str (fishId existingEvent)
          then (Inl FishRequired, docs)
          else let dataToValidate = spread existingEvent updateData;
                   validation = validateEventData dataToValidate
          in if \<not> isValid validation then (Inl (ValidationError (errors validation)), docs)
          else (case updateAsync eventId (updateFields e existingEvent updateData) docs of
                  None \<Rightarrow> (Inl UpdateFailed, docs)
                | Some (result, docs') \<Rightarrow> (Inr (result > 0), docs'))))"

subsection \<open>\<^verbatim>\<open>deleteEvent\<close>\<close>

definition deleteEvent :: "env \<Rightarrow> event list \<Rightarrow> string \<Rightarrow> (error + bool) \<times> event list" where
  "deleteEvent e docs eventId =
     (if \<not> authenticated e then (Inl NotAuthorized, docs)
      else (case findOneAsync [IdEq eventId, OwnerIdEq (the_user e)] docs of
        None \<Rightarrow> (Inl EventNotFound, docs)
      | Some event \<Rightarrow>
          (case removeAsync eventId docs of (result, docs') \<Rightarrow> (Inr (result > 0), docs'))))"

subsection \<open>\<^verbatim>\<open>completeEvent\<close>\<close>

text \<open>
  The source builds \<^verbatim>\<open>updateFields\<close> (\<open>completeFields\<close> here) first, with the first two readings
  of the clock, and then, for a recurring event, \<^verbatim>\<open>nextEventData\<close>, with the next two.
  \<^verbatim>\<open>nextEventData\<close> is the spread of the event with, among others, \<^verbatim>\<open>_id: undefined\<close>: the key is
  there. (The comment of the source expects the collection to draw a new identifier for
  it.)
\<close>

definition completeFields :: "env \<Rightarrow> string \<Rightarrow> event" where
  "completeFields e notes_in =
     empty_event\<lparr> isCompleted := Val True, completedAt := Val (now e 0),
       notes_f := Val (trim notes_in), updatedAt := Val (now e 1) \<rparr>"

definition nextEventData :: "env \<Rightarrow> event \<Rightarrow> event" where
  "nextEventData e event =
     event\<lparr> doc_id := Undefined,
       scheduledAt := nextOccurrence event,
       nextOccurrence := calculateNextOccurrence (tz e) (nextOccurrence event) (recurrence event),
       isCompleted := Val False,
       completedAt := Null,
       notes_f := Val [],
       createdAt := Val (now e 2),
       updatedAt := Val (now e 3) \<rparr>"

definition completeEvent ::
  "env \<Rightarrow> event list \<Rightarrow> string \<Rightarrow> string \<Rightarrow> (error + bool) \<times> event list" where
  "completeEvent e docs eventId notes_in =
     (if \<not> authenticated e then (Inl NotAuthorized, docs)
      else (case findOneAsync [IdEq eventId, OwnerIdEq (the_user e)] docs of
        None \<Rightarrow> (Inl EventNotFound, docs)
      | Some event \<Rightarrow>
          if truthy_bool (isCompleted event) then (Inl AlreadyCompleted, docs)
          else (case (if truthy_str (recurrence event) \<and> truthy_date (nextOccurrence event)
                      then map_option snd (insertAsync (newId e) (nextEventData e event) docs)
                      else Some docs) of
                  None \<Rightarrow> (Inl CompleteFailed, docs)
                | Some docs1 \<Rightarrow>
                    (case updateAsync eventId (completeFields e notes_in) docs1 of
                       None \<Rightarrow> (Inl CompleteFailed, docs1)
                     | Some (result, docs2) \<Rightarrow> (Inr (result > 0), docs2)))))"

subsection \<open>Numbers\<close>

text \<open>
  The counts are Numbers, and \<^verbatim>\<open>(completed / total) * 100\<close> is computed in double precision:
  each of the two operations gives the double nearest to the exact result, a tie going to
  the even significand. Doubles are modelled as the rationals they denote; \<open>fl\<close> rounds a
  rational to 53 significant bits (exponent range and subnormal numbers are left out: the
  operands here are counts of documents and their quotients). \<^verbatim>\<open>Math.round\<close> is exact: the
  nearest integer, a tie going up.
\<close>

definition ilog2 :: "rat \<Rightarrow> int" where
  "ilog2 x =
     (let (p, q) = quotient_of x; k = bitlen p - bitlen q
      in if power_int 2 k \<le> x then k else k - 1)"

definition rne :: "rat \<Rightarrow> int" where
  "rne y =
     (let f = \<lfloor>y\<rfloor>; r = y - of_int f
      in if r < 1 / 2 then f else if 1 / 2 < r then f + 1
         else if even f then f else f + 1)"

definition fl :: "rat \<Rightarrow> rat" where
  "fl x =
     (if x = 0 then 0
      else let s = power_int 2 (52 - ilog2 \<bar>x\<bar>)
           in sgn x * of_int (rne (\<bar>x\<bar> * s)) / s)"

definition js_div :: "rat \<Rightarrow> rat \<Rightarrow> rat" where
  "js_div a b = fl (a / b)"

definition js_mul :: "rat \<Rightarrow> rat \<Rightarrow> rat" where
  "js_mul a b = fl (a * b)"

definition Math_round :: "rat \<Rightarrow> int" where
  "Math_round x = \<lfloor>x + 1 / 2\<rfloor>"

subsection \<open>\<^verbatim>\<open>getEventStats\<close>\<close>

record today_stats =
  today_total :: nat
  today_completed :: nat
  today_remaining :: int

record stats =
  total :: nat
  completed :: nat
  pending :: nat
  overdue :: nat
  today :: today_stats
  completionRate :: int

definition getEventStats :: "env \<Rightarrow> event list \<Rightarrow> error + stats" where
  "getEventStats e docs =
     (if \<not> authenticated e then Inl NotAuthorized
      else let now_d = now e 0;
               startOfDay = setHours (tz e) (new_Date (Val now_d)) 0 0 0 0;
               endOfDay = setHours (tz e) (new_Date (Val now_d)) 23 59 59 999;
               u = the_user e;
               total' = countAsync [OwnerIdEq u] docs;
               completed' = countAsync [OwnerIdEq u, IsCompletedEq True] docs;
               pending' = countAsync [OwnerIdEq u, IsCompletedEq False] docs;
               overdue' = countAsync [OwnerIdEq u, IsCompletedEq False, ScheduledAtLt now_d] docs;
               todayTotal = countAsync [OwnerIdEq u, ScheduledAtGte startOfDay,
                                        ScheduledAtLte endOfDay] docs;
               todayCompleted = countAsync [OwnerIdEq u, IsCompletedEq True,
                                            ScheduledAtGte startOfDay, ScheduledAtLte endOfDay] docs
      in Inr \<lparr> total = total', completed = completed', pending = pending', overdue = overdue',
               today = \<lparr> today_total = todayTotal, today_completed = todayCompleted,
                         today_remaining = int todayTotal - int todayCompleted \<rparr>,
               completionRate =
                 (if total' > 0
                  then Math_round (js_mul (js_div (of_nat completed') (of_nat total')) 100)
                  else 0) \<rparr>)"

subsection \<open>\<^verbatim>\<open>calculateStats\<close> (the publication \<^verbatim>\<open>events.stats\<close>)\<close>

text \<open>
  The publication calls \<^verbatim>\<open>calculateStats(this.userId)\<close>; \<open>u\<close> is its parameter \<^verbatim>\<open>userId\<close>. It reads
  the clock for \<^verbatim>\<open>now\<close> and once more for \<^verbatim>\<open>lastUpdated\<close>.
\<close>

record stats_pub = stats +
  lastUpdated :: date

definition calculateStats :: "env \<Rightarrow> string \<Rightarrow> event list \<Rightarrow> stats_pub" where
  "calculateStats e u docs =
     (let now_d = now e 0;
          startOfDay = setHours (tz e) (new_Date (Val now_d)) 0 0 0 0;
          endOfDay = setHours (tz e) (new_Date (Val now_d)) 23 59 59 999;
          total' = countAsync [OwnerIdEq u] docs;
          completed' = countAsync [OwnerIdEq u, IsCompletedEq True] docs;
          pending' = countAsync [OwnerIdEq u, IsCompletedEq False] docs;
          overdue' = countAsync [OwnerIdEq u, IsCompletedEq False, ScheduledAtLt now_d] docs;
          todayTotal = countAsync [OwnerIdEq u, ScheduledAtGte startOfDay,
                                   ScheduledAtLte endOfDay] docs;
          todayCompleted = countAsync [OwnerIdEq u, IsCompletedEq True,
                                       ScheduledAtGte startOfDay, ScheduledAtLte endOfDay] docs
      in \<lparr> total = total', completed = completed', pending = pending', overdue = overdue',
            today = \<lparr> today_total = todayTotal, today_completed = todayCompleted,
                      today_remaining = int todayTotal - int todayCompleted \<rparr>,
            completionRate =
              (if total' > 0
               then Math_round (js_mul (js_div (of_nat completed') (of_nat total')) 100)
               else 0),
            lastUpdated = now e 1 \<rparr>)"

section \<open>Sequences of calls\<close>

datatype call =
    Insert event
  | Update string event
  | Delete string
  | Complete string string

fun step :: "env \<Rightarrow> call \<Rightarrow> event list \<Rightarrow> event list" where
  "step e (Insert p) docs = snd (insertEvent e docs p)"
| "step e (Update i p) docs = snd (updateEvent e docs i p)"
| "step e (Delete i) docs = snd (deleteEvent e docs i)"
| "step e (Complete i n) docs = snd (completeEvent e docs i n)"

text \<open>The states of the collection that calls of the methods reach from the empty one.\<close>

inductive reachable :: "event list \<Rightarrow> bool" where
  empty: "reachable []"
| call: "reachable docs \<Longrightarrow> reachable (step e c docs)"

text \<open>Every document has an id, and no two documents have the same.\<close>

definition unique_ids :: "event list \<Rightarrow> bool" where
  "unique_ids docs = (distinct (map doc_id docs) \<and> list_all (\<lambda>d. is_val (doc_id d)) docs)"

section \<open>Example data\<close>

text \<open>
  Alice is logged in on a host in UTC whose clock shows 1706700000000 during the call; the
  collection would draw the identifier \<open>e2\<close> next. Event A is scheduled at 2024-01-31T08:00Z
  (1706688000000) and recurs monthly.
\<close>

definition alice :: env where
  "alice = \<lparr> userId = Some ''alice'', clock = (\<lambda>k. 1706700000000), tz = fixed_offset 0,
             newId = ''e2'', fish = [(''f1'', ''alice'')] \<rparr>"

definition payload_A :: event where
  "payload_A = empty_event\<lparr> fishId := Val ''f1'', targetType := Val ''fish'',
     type := Val ''feeding'', title := Val '' Feed '', scheduledAt := Val (Time 1706688000000),
     recurrence := Val ''monthly'' \<rparr>"

definition event_A :: event where
  "event_A = \<lparr> doc_id = Val ''e1'', fishId = Val ''f1'', targetType = Val ''fish'',
     type = Val ''feeding'', title = Val ''Feed'', description = Val [],
     scheduledAt = Val (Time 1706688000000), completedAt = Null, isCompleted = Val False,
     priority = Val ''medium'', recurrence = Val ''monthly'',
     nextOccurrence = Val (Time 1709366400000), notes_f = Val [], ownerId = Val ''alice'',
     createdAt = Val (Time 1706600000000), updatedAt = Val (Time 1706600000000) \<rparr>"

text \<open>Event A once completed.\<close>

definition event_A_done :: event where
  "event_A_done = event_A\<lparr> isCompleted := Val True, completedAt := Val (Time 1706690000000) \<rparr>"

section \<open>Calendar dates\<close>

text \<open>
  The calendar date of a local time value: year, month (0 is January) and day of the
  month; and the number of days of a month.
\<close>

definition civil :: "int \<Rightarrow> int \<times> int \<times> int" where
  "civil t = (YearFromTime t, MonthFromTime t, DateFromTime t)"

definition DaysInMonth :: "int \<Rightarrow> int \<Rightarrow> int" where
  "DaysInMonth y m =
     (if m = 1 then (if DaysInYear y = 366 then 29 else 28)
      else if m = 3 \<or> m = 5 \<or> m = 8 \<or> m = 10 then 30 else 31)"

text \<open>The month after month \<open>m\<close> of year \<open>y\<close>.\<close>

definition next_month :: "int \<Rightarrow> int \<Rightarrow> int \<times> int" where
  "next_month y m = (if m = 11 then (y + 1, 0) else (y, m + 1))"

text \<open>
  The Date at which the clocks of the host show the local time \<open>x\<close>; it is invalid when that
  instant is more than 8.64e15 ms away from the epoch.
\<close>

definition local_instant :: "zone \<Rightarrow> int \<Rightarrow> date" where
  "local_instant z x = TimeClip (UTC z x)"

section \<open>What the specification says the statistics are\<close>

text \<open>
  The events of owner \<open>u\<close>, partitioned by \<^verbatim>\<open>isCompleted\<close>: an event is completed when its
  \<^verbatim>\<open>isCompleted\<close> is true and pending otherwise (\<^verbatim>\<open>!isCompleted\<close>). It is overdue at \<open>n\<close> when it is
  not completed and scheduled before \<open>n\<close>. It is of today when it is scheduled from
  \<open>startOfDay\<close> to \<open>endOfDay\<close>, the first and the last millisecond of the local calendar day of
  \<open>n\<close> on the host (the instants at which its clocks show 00:00:00.000 and 23:59:59.999 of
  that day). The rate is 100 times completed by total, rounded to the nearest integer, a
  half going up.
\<close>

definition owned :: "string \<Rightarrow> event list \<Rightarrow> event list" where
  "owned u docs = filter (\<lambda>d. ownerId d = Val u) docs"

definition is_completed :: "event \<Rightarrow> bool" where
  "is_completed d = truthy_bool (isCompleted d)"

definition is_overdue :: "int \<Rightarrow> event \<Rightarrow> bool" where
  "is_overdue n d =
     (\<not> is_completed d \<and> (case scheduledAt d of Val t \<Rightarrow> date_lt t (Time n) | _ \<Rightarrow> False))"

definition startOfDay :: "zone \<Rightarrow> int \<Rightarrow> date" where
  "startOfDay z n = local_instant z (Day (LocalTime z n) * msPerDay)"

definition endOfDay :: "zone \<Rightarrow> int \<Rightarrow> date" where
  "endOfDay z n = local_instant z (Day (LocalTime z n) * msPerDay + (msPerDay - 1))"

definition is_today :: "zone \<Rightarrow> int \<Rightarrow> event \<Rightarrow> bool" where
  "is_today z n d =
     (case scheduledAt d of
        Val t \<Rightarrow> date_le (startOfDay z n) t \<and> date_le t (endOfDay z n)
      | _ \<Rightarrow> False)"

definition round_nearest :: "rat \<Rightarrow> int" where
  "round_nearest x = \<lfloor>x + 1 / 2\<rfloor>"

definition stats_spec :: "zone \<Rightarrow> int \<Rightarrow> string \<Rightarrow> event list \<Rightarrow> stats" where
  "stats_spec z n u docs =
     (let mine = owned u docs;
          done = filter is_completed mine;
          todays = filter (is_today z n) mine;
          todays_done = filter is_completed todays
      in \<lparr> total = length mine, completed = length done,
            pending = length (filter (\<lambda>d. \<not> is_completed d) mine),
            overdue = length (filter (is_overdue n) mine),
            today = \<lparr> today_total = length todays, today_completed = length todays_done,
                      today_remaining = int (length todays) - int (length todays_done) \<rparr>,
            completionRate =
              (if length mine = 0 then 0
               else round_nearest (100 * of_nat (length done) / of_nat (length mine))) \<rparr>)"

text \<open>
  \<open>x\<close> lies half way between two integers: there 100 times completed by total has two
  nearest integers.
\<close>

definition half_way :: "rat \<Rightarrow> bool" where
  "half_way x = (x = of_int \<lfloor>x\<rfloor> + 1 / 2)"

text \<open>A snapshot is consistent when its numbers add up and the rate is a percentage.\<close>

definition consistent :: "stats \<Rightarrow> bool" where
  "consistent s =
     (completed s + pending s = total s
      \<and> today_completed (today s) \<le> today_total (today s)
      \<and> today_remaining (today s) = int (today_total (today s)) - int (today_completed (today s))
      \<and> 0 \<le> today_remaining (today s)
      \<and> 0 \<le> completionRate s \<and> completionRate s \<le> 100)"

text \<open>
  A collection of \<open>n\<close> events of Alice with the ids \<open>x\<close>, \<open>xx\<close>, ...: the first \<open>k\<close> of them are
  completed.
\<close>

definition nth_event :: "nat \<Rightarrow> nat \<Rightarrow> event" where
  "nth_event k i = event_A\<lparr> doc_id := Val (replicate (Suc i) CHR ''x''),
     recurrence := Null, nextOccurrence := Null,
     isCompleted := Val (i < k),
     completedAt := (if i < k then Val (Time 1706690000000) else Null) \<rparr>"

definition events_of :: "nat \<Rightarrow> nat \<Rightarrow> event list" where
  "events_of k n = map (nth_event k) [0..<n]"

section \<open>What the specification says complete writes\<close>

text \<open>
  The new occurrence as the specification words it: a clone of the completed event \<open>ev\<close> with
  a new id, scheduled at the old \<^verbatim>\<open>nextOccurrence\<close> \<open>n\<close>, with the next occurrence computed from
  \<open>n\<close> and the rule \<open>r\<close>, not completed, without notes, created now (the clock as the call reads
  it for these two keys). And the completed event: \<^verbatim>\<open>isCompleted = true\<close>, \<^verbatim>\<open>completedAt = now\<close>,
  the trimmed notes, \<^verbatim>\<open>updatedAt = now\<close> (the first two readings of the call).
\<close>

definition spawned :: "env \<Rightarrow> event \<Rightarrow> date \<Rightarrow> string \<Rightarrow> event" where
  "spawned e ev n r =
     ev\<lparr> doc_id := Val (newId e), scheduledAt := Val n,
         nextOccurrence := calculateNextOccurrence (tz e) (Val n) (Val r),
         isCompleted := Val False, completedAt := Null, notes_f := Val [],
         createdAt := Val (now e 2), updatedAt := Val (now e 3) \<rparr>"

definition marked_completed :: "env \<Rightarrow> event \<Rightarrow> string \<Rightarrow> event" where
  "marked_completed e ev notes_in =
     ev\<lparr> isCompleted := Val True, completedAt := Val (now e 0),
         notes_f := Val (trim notes_in), updatedAt := Val (now e 1) \<rparr>"

section \<open>What the specification says the validator checks\<close>

text \<open>
  The rules of the specification, one for each message: membership of \<^verbatim>\<open>targetType\<close>; a
  \<^verbatim>\<open>fishId\<close> required for a fish; membership of \<^verbatim>\<open>type\<close>; \<^verbatim>\<open>aquarium_medication\<close> needs the target
  aquarium; a title, of 2 to 100 characters once trimmed; a \<^verbatim>\<open>scheduledAt\<close>, not before 2020;
  membership of \<^verbatim>\<open>priority\<close> and \<^verbatim>\<open>recurrence\<close> when present; at most 500 characters of
  description and notes; \<^verbatim>\<open>completedAt\<close> not before \<^verbatim>\<open>scheduledAt\<close> when both are present.
  \<open>violated v p\<close> says that payload \<open>p\<close> breaks the rule of message \<open>v\<close>; \<open>all_rules\<close> is their
  order.
\<close>

definition present :: "string field \<Rightarrow> bool" where
  "present x = (case x of Val s \<Rightarrow> s \<noteq> [] | _ \<Rightarrow> False)"

fun violated :: "violation \<Rightarrow> event \<Rightarrow> bool" where
  "violated BadTargetType p =
     (case targetType p of Val s \<Rightarrow> s \<noteq> ''fish'' \<and> s \<noteq> ''aquarium'' | _ \<Rightarrow> True)"
| "violated FishIdRequired p = (targetType p = Val ''fish'' \<and> \<not> present (fishId p))"
| "violated BadType p =
     (case type p of
        Val s \<Rightarrow> s \<notin> {''feeding'', ''cleaning'', ''water_change'', ''medication'',
                     ''aquarium_medication'', ''observation'', ''maintenance'', ''other''}
      | _ \<Rightarrow> True)"
| "violated AquariumMedicationTarget p =
     (type p = Val ''aquarium_medication'' \<and> targetType p \<noteq> Val ''aquarium'')"
| "violated TitleRequired p = (\<not> present (title p))"
| "violated TitleTooShort p = (case title p of Val s \<Rightarrow> s \<noteq> [] \<and> length (trim s) < 2 | _ \<Rightarrow> False)"
| "violated TitleTooLong p = (case title p of Val s \<Rightarrow> s \<noteq> [] \<and> 100 < length (trim s) | _ \<Rightarrow> False)"
| "violated ScheduledAtRequired p = (\<not> is_val (scheduledAt p))"
| "violated ScheduledAtBefore2020 p =
     (case scheduledAt p of Val t \<Rightarrow> date_lt t date_2020_01_01 | _ \<Rightarrow> False)"
| "violated BadPriority p =
     (case priority p of Val s \<Rightarrow> s \<noteq> [] \<and> s \<notin> {''low'', ''medium'', ''high''} | _ \<Rightarrow> False)"
| "violated BadRecurrence p =
     (case recurrence p of Val s \<Rightarrow> s \<noteq> [] \<and> s \<notin> {''daily'', ''weekly'', ''monthly''} | _ \<Rightarrow> False)"
| "violated DescriptionTooLong p = (case description p of Val s \<Rightarrow> 500 < length s | _ \<Rightarrow> False)"
| "violated NotesTooLong p = (case notes_f p of Val s \<Rightarrow> 500 < length s | _ \<Rightarrow> False)"
| "violated CompletedBeforeScheduled p =
     (case (completedAt p, scheduledAt p) of (Val c, Val s) \<Rightarrow> date_lt c s | _ \<Rightarrow> False)"

definition all_rules :: "violation list" where
  "all_rules = [BadTargetType, FishIdRequired, BadType, AquariumMedicationTarget,
     TitleRequired, TitleTooShort, TitleTooLong, ScheduledAtRequired, ScheduledAtBefore2020,
     BadPriority, BadRecurrence, DescriptionTooLong, NotesTooLong, CompletedBeforeScheduled]"

definition report :: "violation \<Rightarrow> event \<Rightarrow> violation list" where
  "report v p = (if violated v p then [v] else [])"

text \<open>Further payloads and documents for the examples.\<close>

definition inserted_A :: event where
  "inserted_A = \<lparr> doc_id = Val ''e2'', fishId = Val ''f1'', targetType = Val ''fish'',
     type = Val ''feeding'', title = Val ''Feed'', description = Val [],
     scheduledAt = Val (Time 1706688000000), completedAt = Null, isCompleted = Val False,
     priority = Val ''medium'', recurrence = Val ''monthly'',
     nextOccurrence = Val (Time 1709366400000), notes_f = Val [], ownerId = Val ''alice'',
     createdAt = Val (Time 1706700000000), updatedAt = Val (Time 1706700000000) \<rparr>"

definition alice_later :: env where
  "alice_later = alice\<lparr> clock := (\<lambda>k. 1706800000000), newId := ''e3'' \<rparr>"

text \<open>Event A after \<^verbatim>\<open>update('e2', { isCompleted: null })\<close>.\<close>

definition inserted_A_unset :: event where
  "inserted_A_unset = inserted_A\<lparr> isCompleted := Null, updatedAt := Val (Time 1706800000000) \<rparr>"

text \<open>The clock of this host advances by a millisecond from one reading to the next.\<close>

definition alice_ticking :: env where
  "alice_ticking = alice\<lparr> clock := (\<lambda>k. 1706700000000 + int k) \<rparr>"

definition payload_treat :: "string \<Rightarrow> event" where
  "payload_treat f = empty_event\<lparr> fishId := Val f, targetType := Val ''fish'',
     type := Val ''aquarium_medication'', title := Val ''Treat'',
     scheduledAt := Val (Time 1706688000000) \<rparr>"

definition payload_clean :: event where
  "payload_clean = empty_event\<lparr> fishId := Val ''f1'', targetType := Val ''aquarium'',
     type := Val ''cleaning'', title := Val ''Clean'', scheduledAt := Val (Time 1706688000000) \<rparr>"

section \<open>Properties\<close>


subsection \<open>Looking up and changing one document\<close>

lemma matches_id_owner [simp]:
  "matches [IdEq i, OwnerIdEq u] d = (doc_id d = Val i \<and> ownerId d = Val u)"
  by (simp add: matches_def)

lemma findOneAsync_None:
  "findOneAsync sel docs = None \<longleftrightarrow> (\<forall>d\<in>set docs. \<not> matches sel d)"
  by (auto simp: findOneAsync_def find_None_iff)

lemma findOneAsync_unique:
  assumes "distinct (map doc_id docs)" and "d \<in> set docs"
      and "doc_id d = Val i" and "ownerId d = Val u"
  shows "findOneAsync [IdEq i, OwnerIdEq u] docs = Some d"
  using assms
proof (induction docs)
  case Nil
  then show ?case by simp
next
  case (Cons x xs)
  show ?case
  proof (cases "x = d")
    case True
    with Cons.prems show ?thesis by (simp add: findOneAsync_def)
  next
    case False
    with Cons.prems have in_xs: "d \<in> set xs" by simp
    with Cons.prems have "doc_id x \<noteq> Val i" by force
    with Cons.IH Cons.prems in_xs show ?thesis by (simp add: findOneAsync_def)
  qed
qed

lemma set_first_unique:
  assumes "distinct (map doc_id docs)" and "d \<in> set docs" and "doc_id d = Val i"
      and "doc_id m = Absent \<or> doc_id m = Val i"
  shows "set_first i m docs =
           Some (1, map (\<lambda>x. if doc_id x = Val i then spread x m else x) docs)"
  using assms
proof (induction docs)
  case Nil
  then show ?case by simp
next
  case (Cons x xs)
  show ?case
  proof (cases "doc_id x = Val i")
    case True
    with Cons.prems have "\<forall>y\<in>set xs. doc_id y \<noteq> Val i" by force
    then have "map (\<lambda>x. if doc_id x = Val i then spread x m else x) xs = xs"
      by (simp add: map_idI)
    with True Cons.prems show ?thesis by auto
  next
    case False
    with Cons.prems have "d \<in> set xs" by auto
    with Cons.IH Cons.prems False show ?thesis by simp
  qed
qed

lemma set_first_append_right:
  assumes "d \<in> set docs" and "doc_id d = Val i"
  shows "set_first i m (docs @ ys) =
           map_option (\<lambda>(n, docs'). (n, docs' @ ys)) (set_first i m docs)"
  using assms
  by (induction docs) (auto split: option.splits)

lemma drop_field_simps [simp]:
  "drop_field (Val x) = Val x" "drop_field Null = Null"
  "drop_field Absent = Absent" "drop_field Undefined = Absent"
  by (simp_all add: drop_field_def)

lemma drop_undefined_completeFields [simp]:
  "drop_undefined (completeFields e notes_in) = completeFields e notes_in"
  by (simp add: drop_undefined_def completeFields_def empty_event_def)

subsection \<open>Identifiers are unique\<close>

text \<open>
  Whatever calls were made, by whatever callers and at whatever times, the documents of
  the collection have pairwise different ids.
\<close>

lemma set_first_ids:
  "set_first i m docs = Some (n, docs') \<Longrightarrow> map doc_id docs' = map doc_id docs"
proof (induction docs arbitrary: n docs')
  case Nil
  then show ?case by simp
next
  case (Cons d docs)
  then show ?case
    by (auto simp: spread_def over_def split: if_splits option.splits)
qed

lemma insertAsync_ids:
  assumes "insertAsync k doc docs = Some (i, docs')" and "unique_ids docs"
  shows "unique_ids docs'"
  using assms
  by (cases "doc_id doc")
     (auto simp: insertAsync_def unique_ids_def has_id_def drop_undefined_def split: if_splits)

lemma updateAsync_ids:
  assumes "updateAsync i m docs = Some (n, docs')" and "unique_ids docs"
  shows "unique_ids docs'"
proof -
  from assms(1) have "map doc_id docs' = map doc_id docs"
    by (simp add: updateAsync_def set_first_ids)
  moreover have "list_all (\<lambda>d. is_val (doc_id d)) xs = list_all is_val (map doc_id xs)" for xs :: "event list"
    by (simp add: list_all_iff)
  ultimately show ?thesis
    using assms(2) by (simp add: unique_ids_def)
qed

lemma removeAsync_ids:
  assumes "unique_ids docs"
  shows "unique_ids (snd (removeAsync i docs))"
  using assms by (simp add: removeAsync_def unique_ids_def distinct_map_filter list_all_iff)

lemma step_ids:
  assumes "unique_ids docs"
  shows "unique_ids (step e c docs)"
proof (cases c)
  case (Insert p)
  with assms show ?thesis
    by (auto simp: insertEvent_def Let_def insertAsync_ids split: if_splits option.splits)
next
  case (Update i p)
  with assms show ?thesis
    by (auto simp: updateEvent_def Let_def updateAsync_ids split: if_splits option.splits)
next
  case (Delete i)
  with assms removeAsync_ids [OF assms, of i] show ?thesis
    by (auto simp: deleteEvent_def split: if_splits option.splits prod.splits)
next
  case (Complete i n)
  with assms show ?thesis
    by (auto simp: completeEvent_def insertAsync_ids updateAsync_ids
             split: if_splits option.splits)
qed

lemma reachable_unique_ids:
  "reachable docs \<Longrightarrow> unique_ids docs"
  by (induction rule: reachable.induct) (simp add: unique_ids_def, simp add: step_ids)

text \<open>After Alice's first insert the collection holds one document, with the id drawn.\<close>

lemma reachable_unique_ids_witness:
  "reachable (step alice (Insert payload_A) [])
   \<and> unique_ids (step alice (Insert payload_A) [])
   \<and> map doc_id (step alice (Insert payload_A) []) = [Val ''e2'']"
proof -
  have r: "reachable (step alice (Insert payload_A) [])"
    by (rule reachable.call) (rule reachable.empty)
  have "map doc_id (step alice (Insert payload_A) []) = [Val ''e2'']"
    by code_simp
  with r reachable_unique_ids [OF r] show ?thesis by simp
qed

subsection \<open>Calls that find no event, or a completed one\<close>

text \<open>
  C3. For an authenticated caller and an id: when no document of the collection has that
  id together with the caller as its owner (the id was deleted, never existed, or belongs
  to somebody else), update, delete and complete each throw \<^verbatim>\<open>event-not-found\<close> and leave the
  collection as it was; and complete on a document of the caller whose \<^verbatim>\<open>isCompleted\<close> is
  \<^verbatim>\<open>true\<close> throws \<^verbatim>\<open>already-completed\<close> and leaves the collection as it was, so that no new
  occurrence is added. Identifiers are unique in the collection.
\<close>

theorem not_found_and_already_completed:
  assumes "authenticated e"
  shows "((\<forall>d\<in>set docs. \<not> (doc_id d = Val i \<and> ownerId d = Val (the_user e))) \<longrightarrow>
            updateEvent e docs i p = (Inl EventNotFound, docs)
          \<and> deleteEvent e docs i = (Inl EventNotFound, docs)
          \<and> completeEvent e docs i n = (Inl EventNotFound, docs))
       \<and> (distinct (map doc_id docs) \<and> d \<in> set docs \<and> doc_id d = Val j
            \<and> ownerId d = Val (the_user e) \<and> isCompleted d = Val True \<longrightarrow>
            completeEvent e docs j n = (Inl AlreadyCompleted, docs))"
proof (intro conjI impI)
  assume "\<forall>d\<in>set docs. \<not> (doc_id d = Val i \<and> ownerId d = Val (the_user e))"
  then have none: "findOneAsync [IdEq i, OwnerIdEq (the_user e)] docs = None"
    by (simp add: findOneAsync_None)
  from none assms show "updateEvent e docs i p = (Inl EventNotFound, docs)"
    by (simp add: updateEvent_def)
  from none assms show "deleteEvent e docs i = (Inl EventNotFound, docs)"
    by (simp add: deleteEvent_def)
  from none assms show "completeEvent e docs i n = (Inl EventNotFound, docs)"
    by (simp add: completeEvent_def)
next
  assume h: "distinct (map doc_id docs) \<and> d \<in> set docs \<and> doc_id d = Val j
               \<and> ownerId d = Val (the_user e) \<and> isCompleted d = Val True"
  then have "findOneAsync [IdEq j, OwnerIdEq (the_user e)] docs = Some d"
    by (simp add: findOneAsync_unique)
  with h assms show "completeEvent e docs j n = (Inl AlreadyCompleted, docs)"
    by (simp add: completeEvent_def)
qed

theorem not_found_and_already_completed_witness:
  "authenticated alice
   \<and> doc_id event_A_done \<noteq> Val ''e9''
   \<and> updateEvent alice [event_A_done] ''e9'' empty_event = (Inl EventNotFound, [event_A_done])
   \<and> deleteEvent alice [event_A_done] ''e9'' = (Inl EventNotFound, [event_A_done])
   \<and> completeEvent alice [event_A_done] ''e9'' [] = (Inl EventNotFound, [event_A_done])
   \<and> distinct (map doc_id [event_A_done]) \<and> event_A_done \<in> set [event_A_done]
   \<and> doc_id event_A_done = Val ''e1'' \<and> ownerId event_A_done = Val (the_user alice)
   \<and> isCompleted event_A_done = Val True
   \<and> completeEvent alice [event_A_done] ''e1'' [] = (Inl AlreadyCompleted, [event_A_done])"
proof -
  have a: "authenticated alice"
    by (simp add: authenticated_def alice_def)
  have b: "\<forall>d\<in>set [event_A_done]. \<not> (doc_id d = Val ''e9'' \<and> ownerId d = Val (the_user alice))"
    by (simp add: event_A_done_def event_A_def)
  have c: "distinct (map doc_id [event_A_done]) \<and> event_A_done \<in> set [event_A_done]
             \<and> doc_id event_A_done = Val ''e1'' \<and> ownerId event_A_done = Val (the_user alice)
             \<and> isCompleted event_A_done = Val True"
    by (simp add: event_A_done_def event_A_def the_user_def alice_def)
  have b': "doc_id event_A_done \<noteq> Val ''e9''"
    by (simp add: event_A_done_def event_A_def)
  from not_found_and_already_completed
         [OF a, of "[event_A_done]" "''e9''" empty_event "[]" event_A_done "''e1''"] a b b' c
  show ?thesis by blast
qed

subsection \<open>Completing a recurring event\<close>

lemma spread_completeFields:
  "spread ev (completeFields e notes_in) = marked_completed e ev notes_in"
  by (cases ev)
     (simp add: spread_def over_def completeFields_def empty_event_def marked_completed_def)

lemma updateAsync_completeFields:
  assumes "distinct (map doc_id docs)" and "ev \<in> set docs" and "doc_id ev = Val i"
  shows "updateAsync i (completeFields e notes_in) (docs @ ys) =
           Some (1, map (\<lambda>d. if doc_id d = Val i then marked_completed e d notes_in else d) docs
                    @ ys)"
proof -
  have "doc_id (completeFields e notes_in) = Absent"
    by (simp add: completeFields_def empty_event_def)
  with assms have "set_first i (completeFields e notes_in) docs =
      Some (1, map (\<lambda>x. if doc_id x = Val i then spread x (completeFields e notes_in) else x) docs)"
    by (intro set_first_unique) auto
  with assms show ?thesis
    by (simp add: updateAsync_def set_first_append_right [of ev] spread_completeFields)
qed

lemma complete_marks_completed:
  assumes "authenticated e" and "distinct (map doc_id docs)"
      and "ev \<in> set docs" and "doc_id ev = Val i" and "ownerId ev = Val (the_user e)"
      and "\<not> truthy_bool (isCompleted ev)"
      and "\<not> (truthy_str (recurrence ev) \<and> truthy_date (nextOccurrence ev))"
  shows "completeEvent e docs i notes_in
           = (Inr True, map (\<lambda>d. if doc_id d = Val i then marked_completed e d notes_in else d) docs)"
proof -
  have found: "findOneAsync [IdEq i, OwnerIdEq (the_user e)] docs = Some ev"
    using assms by (simp add: findOneAsync_unique)
  have upd: "updateAsync i (completeFields e notes_in) docs
      = Some (1, map (\<lambda>d. if doc_id d = Val i then marked_completed e d notes_in else d) docs)"
    using updateAsync_completeFields [OF assms(2,3,4), of e notes_in "[]"] by simp
  from assms found upd show ?thesis
    by (auto simp: completeEvent_def)
qed

text \<open>An event of Alice that does not recur is marked completed, with the notes trimmed.\<close>

lemma complete_marks_completed_witness:
  "completeEvent alice [event_A\<lparr> recurrence := Null, nextOccurrence := Null \<rparr>] ''e1'' '' done ''
     = (Inr True, [event_A\<lparr> recurrence := Null, nextOccurrence := Null, isCompleted := Val True,
                            completedAt := Val (now alice 0), notes_f := Val ''done'',
                            updatedAt := Val (now alice 1) \<rparr>])"
proof -
  let ?ev = "event_A\<lparr> recurrence := Null, nextOccurrence := Null \<rparr>"
  have h: "authenticated alice" "distinct (map doc_id [?ev])" "?ev \<in> set [?ev]"
      "doc_id ?ev = Val ''e1''" "ownerId ?ev = Val (the_user alice)"
      "\<not> truthy_bool (isCompleted ?ev)"
      "\<not> (truthy_str (recurrence ?ev) \<and> truthy_date (nextOccurrence ?ev))"
    by (simp_all add: authenticated_def alice_def event_A_def the_user_def)
  have t: "trim '' done '' = ''done''"
    by code_simp
  from complete_marks_completed [OF h, of "'' done ''"] h t
  show ?thesis by (simp add: marked_completed_def)
qed

text \<open>
  C1 (fails on the code). Let \<open>ev\<close> be a document of the collection that belongs to the
  caller, with \<^verbatim>\<open>isCompleted = false\<close>, a recurrence rule \<open>r\<close> set and a next occurrence \<open>n\<close> set.
  The document that \<^verbatim>\<open>complete(id, notes)\<close> builds for the new occurrence is the clone
  \<open>spawned e ev n r\<close> (\<^verbatim>\<open>scheduledAt = n\<close>, \<^verbatim>\<open>nextOccurrence = calculateNextOccurrence(n, r)\<close>, not
  completed, \<^verbatim>\<open>completedAt = null\<close>, empty notes, \<^verbatim>\<open>createdAt = updatedAt = now\<close>), but with the key
  \<^verbatim>\<open>_id\<close> holding \<^verbatim>\<open>undefined\<close> instead of being left out. The collection refuses such a
  document, so the method throws \<^verbatim>\<open>complete-failed\<close> before it reaches the update: no new
  occurrence is added and the event stays as it was, not completed.
\<close>

theorem complete_of_recurring_event_fails:
  assumes "authenticated e" and "distinct (map doc_id docs)"
      and "ev \<in> set docs" and "doc_id ev = Val i" and "ownerId ev = Val (the_user e)"
      and "isCompleted ev = Val False"
      and "recurrence ev = Val r" and "r \<noteq> []" and "nextOccurrence ev = Val n"
  shows "nextEventData e ev = (spawned e ev n r)\<lparr> doc_id := Undefined \<rparr>
       \<and> insertAsync (newId e) (nextEventData e ev) docs = None
       \<and> completeEvent e docs i notes_in = (Inl CompleteFailed, docs)"
proof -
  have found: "findOneAsync [IdEq i, OwnerIdEq (the_user e)] docs = Some ev"
    using assms by (simp add: findOneAsync_unique)
  have next_ev: "nextEventData e ev = (spawned e ev n r)\<lparr> doc_id := Undefined \<rparr>"
    using assms by (simp add: nextEventData_def spawned_def)
  have ins: "insertAsync (newId e) (nextEventData e ev) docs = None"
    by (simp add: insertAsync_def nextEventData_def)
  have "completeEvent e docs i notes_in = (Inl CompleteFailed, docs)"
    using assms found ins
    by (simp add: completeEvent_def)
  with next_ev ins show ?thesis by simp
qed

text \<open>Alice completes her monthly event A: the call fails and A is still open.\<close>

theorem complete_of_recurring_event_fails_witness:
  "authenticated alice \<and> distinct (map doc_id [event_A]) \<and> event_A \<in> set [event_A]
   \<and> doc_id event_A = Val ''e1'' \<and> ownerId event_A = Val (the_user alice)
   \<and> isCompleted event_A = Val False \<and> recurrence event_A = Val ''monthly''
   \<and> nextOccurrence event_A = Val (Time 1709366400000)
   \<and> doc_id (nextEventData alice event_A) = Undefined
   \<and> completeEvent alice [event_A] ''e1'' '' done '' = (Inl CompleteFailed, [event_A])"
proof -
  have h: "authenticated alice" "distinct (map doc_id [event_A])" "event_A \<in> set [event_A]"
      "doc_id event_A = Val ''e1''" "ownerId event_A = Val (the_user alice)"
      "isCompleted event_A = Val False" "recurrence event_A = Val ''monthly''"
      "''monthly'' \<noteq> []" "nextOccurrence event_A = Val (Time 1709366400000)"
    by (simp_all add: authenticated_def alice_def event_A_def the_user_def)
  from complete_of_recurring_event_fails [OF h, of "'' done ''"] h
  show ?thesis by simp
qed

subsection \<open>The validator\<close>

lemma filter_report: "filter (\<lambda>v. violated v p) (v # vs) = report v p @ filter (\<lambda>v. violated v p) vs"
  by (simp add: report_def)

lemma rep_targetType: "errors_targetType p = report BadTargetType p"
  by (cases "targetType p") (auto simp: errors_targetType_def report_def validTargetTypes_def)

lemma rep_fishId: "errors_fishId p = report FishIdRequired p"
  by (cases "fishId p") (auto simp: errors_fishId_def report_def present_def)

lemma rep_type: "errors_type p = report BadType p"
  by (cases "type p") (auto simp: errors_type_def report_def validTypes_def)

lemma rep_coherence: "errors_coherence p = report AquariumMedicationTarget p"
  by (simp add: errors_coherence_def report_def)

lemma rep_title:
  "errors_title p = report TitleRequired p @ report TitleTooShort p @ report TitleTooLong p"
  by (cases "title p") (auto simp: errors_title_def report_def present_def)

lemma rep_scheduledAt:
  "errors_scheduledAt p = report ScheduledAtRequired p @ report ScheduledAtBefore2020 p"
  by (cases "scheduledAt p") (auto simp: errors_scheduledAt_def report_def)

lemma rep_priority: "errors_priority p = report BadPriority p"
  by (cases "priority p") (auto simp: errors_priority_def report_def validPriorities_def)

lemma rep_recurrence: "errors_recurrence p = report BadRecurrence p"
  by (cases "recurrence p") (auto simp: errors_recurrence_def report_def validRecurrences_def)

lemma rep_description: "errors_description p = report DescriptionTooLong p"
  by (cases "description p") (auto simp: errors_description_def report_def)

lemma rep_notes: "errors_notes p = report NotesTooLong p"
  by (cases "notes_f p") (auto simp: errors_notes_def report_def)

lemma rep_completedAt: "errors_completedAt p = report CompletedBeforeScheduled p"
  by (cases "completedAt p"; cases "scheduledAt p") (auto simp: errors_completedAt_def report_def)

lemmas rep_all = rep_targetType rep_fishId rep_type rep_coherence rep_title rep_scheduledAt
  rep_priority rep_recurrence rep_description rep_notes rep_completedAt

lemma errors_filter: "errors (validateEventData p) = filter (\<lambda>v. violated v p) all_rules"
  unfolding all_rules_def filter_report
  by (simp add: validateEventData_def rep_all)

lemma all_rules_complete: "v \<in> set all_rules"
  by (cases v) (simp_all add: all_rules_def)

lemma isValid_iff: "isValid (validateEventData p) \<longleftrightarrow> (\<forall>v. \<not> violated v p)"
proof -
  have "isValid (validateEventData p) \<longleftrightarrow> errors (validateEventData p) = []"
    by (simp add: validateEventData_def Let_def)
  also have "\<dots> \<longleftrightarrow> (\<forall>v\<in>set all_rules. \<not> violated v p)"
    by (simp add: errors_filter filter_empty_conv)
  finally show ?thesis using all_rules_complete by auto
qed


lemma coherence_reported:
  assumes "type p = Val ''aquarium_medication''" and "targetType p = Val ''fish''"
  shows "AquariumMedicationTarget \<in> set (errors (validateEventData p))"
    and "\<not> isValid (validateEventData p)"
proof -
  from assms have v: "violated AquariumMedicationTarget p" by simp
  then show "AquariumMedicationTarget \<in> set (errors (validateEventData p))"
    by (simp add: errors_filter all_rules_complete)
  from v show "\<not> isValid (validateEventData p)"
    unfolding isValid_iff by blast
qed

lemma insert_rejected_keeps_docs:
  assumes "\<not> isValid (validateEventData p)"
  shows "snd (insertEvent e docs p) = docs"
  using assms by (simp add: insertEvent_def Let_def)

text \<open>
  C6 (as amended). The validator returns exactly the messages of the rules that the payload
  breaks, all of them and in the order of the rules, and it says valid exactly when no rule
  is broken. A payload with \<^verbatim>\<open>type = aquarium_medication\<close> and \<^verbatim>\<open>targetType = fish\<close> is invalid, with
  the coherence message among its errors, and inserting it persists nothing. The insert
  throws \<^verbatim>\<open>validation-error\<close> with the messages when the call gets as far as the validator:
  the caller is logged in, title and date pass the type checks and \<^verbatim>\<open>fishId\<close> names a fish of
  the caller. (Before that the other gates throw: not logged in, a failed type check, or
  \<^verbatim>\<open>fish-not-found\<close>.)
\<close>

theorem validation_collects_all_violations:
  "errors (validateEventData p) = filter (\<lambda>v. violated v p) all_rules
   \<and> (isValid (validateEventData p) \<longleftrightarrow> (\<forall>v. \<not> violated v p))
   \<and> (type p = Val ''aquarium_medication'' \<and> targetType p = Val ''fish'' \<longrightarrow>
        \<not> isValid (validateEventData p)
        \<and> AquariumMedicationTarget \<in> set (errors (validateEventData p))
        \<and> snd (insertEvent e docs p) = docs
        \<and> (authenticated e \<and> is_val (title p) \<and> is_val (scheduledAt p)
             \<and> fish_found e (fishId p) \<longrightarrow>
             insertEvent e docs p
               = (Inl (ValidationError (errors (validateEventData p))), docs)))"
proof (intro conjI impI)
  show "errors (validateEventData p) = filter (\<lambda>v. violated v p) all_rules"
    by (rule errors_filter)
  show "isValid (validateEventData p) \<longleftrightarrow> (\<forall>v. \<not> violated v p)"
    by (rule isValid_iff)
next
  assume h: "type p = Val ''aquarium_medication'' \<and> targetType p = Val ''fish''"
  then show inv: "\<not> isValid (validateEventData p)"
    by (simp add: coherence_reported)
  from h show "AquariumMedicationTarget \<in> set (errors (validateEventData p))"
    by (simp add: coherence_reported)
  from inv show "snd (insertEvent e docs p) = docs"
    by (rule insert_rejected_keeps_docs)
  assume g: "authenticated e \<and> is_val (title p) \<and> is_val (scheduledAt p)
               \<and> fish_found e (fishId p)"
  then have "is_val (fishId p)"
    by (cases "fishId p") (simp_all add: fish_found_def)
  with h g inv show "insertEvent e docs p
      = (Inl (ValidationError (errors (validateEventData p))), docs)"
    by (simp add: insertEvent_def Let_def)
qed

theorem validation_collects_all_violations_witness:
  "type (payload_treat ''f1'') = Val ''aquarium_medication''
   \<and> targetType (payload_treat ''f1'') = Val ''fish''
   \<and> authenticated alice \<and> is_val (title (payload_treat ''f1''))
   \<and> is_val (scheduledAt (payload_treat ''f1'')) \<and> fish_found alice (fishId (payload_treat ''f1''))
   \<and> errors (validateEventData (payload_treat ''f1'')) = [AquariumMedicationTarget]
   \<and> insertEvent alice [] (payload_treat ''f1'')
       = (Inl (ValidationError [AquariumMedicationTarget]), [])"
proof -
  have h: "type (payload_treat ''f1'') = Val ''aquarium_medication''
      \<and> targetType (payload_treat ''f1'') = Val ''fish''"
    by (simp add: payload_treat_def)
  have g: "authenticated alice \<and> is_val (title (payload_treat ''f1''))
      \<and> is_val (scheduledAt (payload_treat ''f1''))
      \<and> fish_found alice (fishId (payload_treat ''f1''))"
    by (simp add: payload_treat_def authenticated_def alice_def fish_found_def the_user_def)
  have e: "errors (validateEventData (payload_treat ''f1'')) = [AquariumMedicationTarget]"
    by code_simp
  from validation_collects_all_violations [of "payload_treat ''f1''" alice "[]"] h g e
  show ?thesis by simp
qed

text \<open>
  The claim as it was stated fails: Alice owns no fish \<open>f9\<close>, so the insert of the incoherent
  payload throws \<^verbatim>\<open>fish-not-found\<close> and not \<^verbatim>\<open>validation-error\<close>.
\<close>

theorem insert_of_incoherent_payload_counterexample:
  "type (payload_treat ''f9'') = Val ''aquarium_medication''
   \<and> targetType (payload_treat ''f9'') = Val ''fish''
   \<and> authenticated alice
   \<and> insertEvent alice [] (payload_treat ''f9'') = (Inl FishNotFound, [])
   \<and> (\<forall>msgs. insertEvent alice [] (payload_treat ''f9'') \<noteq> (Inl (ValidationError msgs), []))"
proof -
  have a: "insertEvent alice [] (payload_treat ''f9'') = (Inl FishNotFound, [])"
    by code_simp
  have b: "type (payload_treat ''f9'') = Val ''aquarium_medication''
      \<and> targetType (payload_treat ''f9'') = Val ''fish'' \<and> authenticated alice"
    by (simp add: payload_treat_def authenticated_def alice_def)
  from a b show ?thesis by simp
qed

subsection \<open>Inserting\<close>

lemma validRecurrence_next:
  "r \<in> set validRecurrences \<Longrightarrow> calculateNextOccurrence z d (Val r) \<noteq> Null"
  by (auto simp: validRecurrences_def calculateNextOccurrence_def Let_def)

lemma drop_field_next [simp]:
  "drop_field (calculateNextOccurrence z d r) = calculateNextOccurrence z d r"
  by (simp add: calculateNextOccurrence_def Let_def)

lemma isValid_recurrence:
  assumes "isValid (validateEventData p)" and "recurrence p = Val r" and "r \<noteq> []"
  shows "r \<in> set validRecurrences"
proof -
  from assms(1) have "errors_recurrence p = []"
    by (simp add: validateEventData_def Let_def)
  with assms(2,3) show ?thesis
    by (simp add: errors_recurrence_def split: if_splits)
qed

text \<open>
  C9 (as amended). When insert accepts a payload \<open>p\<close> and returns the id \<open>i\<close>, the collection has
  one more document \<open>d\<close>, with that id and, whatever \<open>p\<close> carries under \<^verbatim>\<open>isCompleted\<close>,
  \<^verbatim>\<open>completedAt\<close>, \<^verbatim>\<open>createdAt\<close>, \<^verbatim>\<open>updatedAt\<close>, \<^verbatim>\<open>ownerId\<close> or \<^verbatim>\<open>nextOccurrence\<close>: \<^verbatim>\<open>isCompleted = false\<close>,
  \<^verbatim>\<open>completedAt = null\<close>, the priority of \<open>p\<close> or \<^verbatim>\<open>medium\<close> when \<open>p\<close> has none, the recurrence of \<open>p\<close> or
  \<^verbatim>\<open>null\<close> when \<open>p\<close> has none, \<^verbatim>\<open>nextOccurrence = calculateNextOccurrence(scheduledAt, recurrence)\<close>
  when \<open>p\<close> has a recurrence and \<^verbatim>\<open>null\<close> otherwise (and it is \<^verbatim>\<open>null\<close> only then), title,
  description and notes trimmed, the caller as \<^verbatim>\<open>ownerId\<close>. \<^verbatim>\<open>createdAt\<close> is the clock as the call
  reads it first and \<^verbatim>\<open>updatedAt\<close> the clock as it reads it next: the source evaluates
  \<^verbatim>\<open>new Date()\<close> once for each.
\<close>

theorem insert_persists_normalised_document:
  assumes "insertEvent e docs p = (Inr i, docs')"
  shows "\<exists>d t s. docs' = docs @ [d] \<and> doc_id d = Val i
           \<and> scheduledAt p = Val t \<and> title p = Val s
           \<and> isCompleted d = Val False \<and> completedAt d = Null
           \<and> priority d = (if truthy_str (priority p) then priority p else Val ''medium'')
           \<and> recurrence d = (if truthy_str (recurrence p) then recurrence p else Null)
           \<and> nextOccurrence d =
               (if truthy_str (recurrence p)
                then calculateNextOccurrence (tz e) (scheduledAt p) (recurrence p) else Null)
           \<and> (truthy_str (recurrence p) \<longleftrightarrow> nextOccurrence d \<noteq> Null)
           \<and> title d = Val (trim s)
           \<and> description d = (case description p of Val x \<Rightarrow> Val (trim x) | _ \<Rightarrow> Val [])
           \<and> notes_f d = (case notes_f p of Val x \<Rightarrow> Val (trim x) | _ \<Rightarrow> Val [])
           \<and> userId e = Some (the_user e) \<and> ownerId d = Val (the_user e)
           \<and> createdAt d = Val (Time (clock e 0)) \<and> updatedAt d = Val (Time (clock e 1))
           \<and> scheduledAt d = Val t \<and> type d = type p \<and> targetType d = targetType p
           \<and> fishId d = drop_field (fishId p)"
proof -
  from assms have auth: "authenticated e"
    by (auto simp: insertEvent_def split: if_splits)
  from assms auth have chk: "is_val (title p)" "is_val (scheduledAt p)"
      "is_val (type p)" "is_val (targetType p)"
    by (auto simp: insertEvent_def split: if_splits)
  then obtain s t where st: "title p = Val s" "scheduledAt p = Val t"
    by (cases "title p"; cases "scheduledAt p") auto
  from chk obtain ty tg where tt: "type p = Val ty" "targetType p = Val tg"
    by (cases "type p"; cases "targetType p") auto
  from assms auth have valid: "isValid (validateEventData p)"
    by (auto simp: insertEvent_def Let_def split: if_splits)
  from assms auth valid
  have ins: "insertAsync (newId e) (eventToInsert e p) docs = Some (i, docs')"
    by (auto simp: insertEvent_def Let_def split: if_splits option.splits)
  define d where "d = drop_undefined ((eventToInsert e p)\<lparr>doc_id := Val i\<rparr>)"
  from ins have docs': "docs' = docs @ [d]"
    by (cases "doc_id p")
       (auto simp: insertAsync_def eventToInsert_def d_def drop_undefined_def split: if_splits)
  have rec: "truthy_str (recurrence p) \<longleftrightarrow> nextOccurrence d \<noteq> Null"
  proof (cases "recurrence p")
    case (Val r)
    show ?thesis
    proof (cases "r = []")
      case True
      with Val show ?thesis by (simp add: d_def drop_undefined_def eventToInsert_def next_or_null_def)
    next
      case False
      with Val valid have "r \<in> set validRecurrences" by (simp add: isValid_recurrence)
      then have "calculateNextOccurrence (tz e) (Val t) (Val r) \<noteq> Null"
        by (simp add: validRecurrence_next)
      with Val False st show ?thesis
        by (simp add: d_def drop_undefined_def eventToInsert_def next_or_null_def)
    qed
  qed (simp_all add: d_def drop_undefined_def eventToInsert_def next_or_null_def)
  from auth have user: "userId e = Some (the_user e)"
    by (auto simp: authenticated_def the_user_def split: option.splits)
  have fields: "doc_id d = Val i" "isCompleted d = Val False" "completedAt d = Null"
      "priority d = (if truthy_str (priority p) then priority p else Val ''medium'')"
      "recurrence d = (if truthy_str (recurrence p) then recurrence p else Null)"
      "title d = Val (trim s)" "ownerId d = Val (the_user e)"
      "createdAt d = Val (Time (clock e 0))" "updatedAt d = Val (Time (clock e 1))"
      "scheduledAt d = Val t" "type d = type p" "targetType d = targetType p"
      "fishId d = drop_field (fishId p)"
    using st tt
    by (cases "priority p"; cases "recurrence p";
        simp add: d_def drop_undefined_def eventToInsert_def or_else_def now_def)+
  have nxt: "nextOccurrence d =
      (if truthy_str (recurrence p)
       then calculateNextOccurrence (tz e) (scheduledAt p) (recurrence p) else Null)"
    using st
    by (auto simp: d_def drop_undefined_def eventToInsert_def next_or_null_def
             split: field.splits)
  have descr: "description d = (case description p of Val x \<Rightarrow> Val (trim x) | _ \<Rightarrow> Val [])"
    by (cases "description p")
       (auto simp: d_def drop_undefined_def eventToInsert_def trim_or_empty_def trim_def)
  have nts: "notes_f d = (case notes_f p of Val x \<Rightarrow> Val (trim x) | _ \<Rightarrow> Val [])"
    by (cases "notes_f p")
       (auto simp: d_def drop_undefined_def eventToInsert_def trim_or_empty_def trim_def)
  from docs' st fields nxt rec descr nts user show ?thesis
    by blast
qed

text \<open>
  Alice inserts a payload that claims to be completed, created long ago and owned by
  Mallory: the document stored is the same as for the clean payload.
\<close>

theorem insert_persists_normalised_document_witness:
  "insertEvent alice []
     (payload_A\<lparr> isCompleted := Val True, completedAt := Val (Time 1706690000000),
                  createdAt := Val (Time 5), updatedAt := Val (Time 7),
                  ownerId := Val ''mallory'' \<rparr>)
     = (Inr ''e2'', [inserted_A])
   \<and> isCompleted inserted_A = Val False \<and> completedAt inserted_A = Null
   \<and> ownerId inserted_A = Val ''alice'' \<and> createdAt inserted_A = Val (Time (clock alice 0))
   \<and> updatedAt inserted_A = Val (Time (clock alice 1)) \<and> title inserted_A = Val ''Feed''
   \<and> priority inserted_A = Val ''medium''"
proof -
  let ?p = "payload_A\<lparr> isCompleted := Val True, completedAt := Val (Time 1706690000000),
                  createdAt := Val (Time 5), updatedAt := Val (Time 7),
                  ownerId := Val ''mallory'' \<rparr>"
  have run: "insertEvent alice [] ?p = (Inr ''e2'', [inserted_A])"
    by code_simp
  from insert_persists_normalised_document [OF run]
  obtain d where d: "[inserted_A] = [] @ [d]" "isCompleted d = Val False" "completedAt d = Null"
      "ownerId d = Val (the_user alice)" "createdAt d = Val (Time (clock alice 0))"
      "updatedAt d = Val (Time (clock alice 1))"
    by blast
  then have "d = inserted_A" by simp
  with d run show ?thesis
    by (simp add: the_user_def alice_def inserted_A_def)
qed

text \<open>
  The claim as it was stated fails: when the clock advances between the two readings, here
  by one millisecond, \<^verbatim>\<open>createdAt\<close> and \<^verbatim>\<open>updatedAt\<close> of the inserted document differ.
\<close>

theorem insert_timestamps_counterexample:
  "insertEvent alice_ticking [] payload_A
     = (Inr ''e2'', [inserted_A\<lparr> updatedAt := Val (Time 1706700000001) \<rparr>])
   \<and> createdAt (inserted_A\<lparr> updatedAt := Val (Time 1706700000001) \<rparr>) = Val (Time 1706700000000)
   \<and> updatedAt (inserted_A\<lparr> updatedAt := Val (Time 1706700000001) \<rparr>) = Val (Time 1706700000001)
   \<and> createdAt (inserted_A\<lparr> updatedAt := Val (Time 1706700000001) \<rparr>)
       \<noteq> updatedAt (inserted_A\<lparr> updatedAt := Val (Time 1706700000001) \<rparr>)"
proof -
  have "insertEvent alice_ticking [] payload_A
     = (Inr ''e2'', [inserted_A\<lparr> updatedAt := Val (Time 1706700000001) \<rparr>])"
    by code_simp
  then show ?thesis by (simp add: inserted_A_def)
qed

subsection \<open>Updating\<close>

text \<open>
  C2 (fails on the code). Alice inserts event A and later sends an update whose payload
  carries \<^verbatim>\<open>ownerId\<close>: \<^verbatim>\<open>updateFields\<close> spreads the payload into \<^verbatim>\<open>$set\<close>, and the stored document
  belongs to Mallory afterwards.
\<close>

theorem update_overwrites_ownerId:
  "insertEvent alice [] payload_A = (Inr ''e2'', [inserted_A])
   \<and> ownerId inserted_A = Val ''alice''
   \<and> updateEvent alice_later [inserted_A] ''e2'' (empty_event\<lparr> ownerId := Val ''mallory'' \<rparr>)
       = (Inr True, [inserted_A\<lparr> ownerId := Val ''mallory'', updatedAt := Val (Time 1706800000000) \<rparr>])"
  by code_simp

theorem update_overwrites_ownerId_witness:
  "map ownerId (snd (updateEvent alice_later [inserted_A] ''e2''
                       (empty_event\<lparr> ownerId := Val ''mallory'' \<rparr>))) = [Val ''mallory'']"
  using update_overwrites_ownerId by simp

text \<open>
  C4 (fails on the code). Event A recurs monthly. An update whose payload only clears the
  recurrence (\<^verbatim>\<open>recurrence: null\<close>) does not pass the test
  \<^verbatim>\<open>updateData.recurrence || updateData.scheduledAt\<close>, so \<^verbatim>\<open>nextOccurrence\<close> is not recomputed: the
  stored document has no recurrence and still its old next occurrence. When the payload
  carries the date as well, the next occurrence is cleared.
\<close>

theorem update_clearing_recurrence_keeps_nextOccurrence:
  "updateEvent alice_later [inserted_A] ''e2'' (empty_event\<lparr> recurrence := Null \<rparr>)
     = (Inr True, [inserted_A\<lparr> recurrence := Null, updatedAt := Val (Time 1706800000000) \<rparr>])
   \<and> nextOccurrence (inserted_A\<lparr> recurrence := Null, updatedAt := Val (Time 1706800000000) \<rparr>)
       = Val (Time 1709366400000)
   \<and> updateEvent alice_later [inserted_A] ''e2''
        (empty_event\<lparr> recurrence := Null, scheduledAt := Val (Time 1706688000000) \<rparr>)
     = (Inr True, [inserted_A\<lparr> recurrence := Null, nextOccurrence := Null,
                               updatedAt := Val (Time 1706800000000) \<rparr>])"
  by code_simp

theorem update_clearing_recurrence_keeps_nextOccurrence_witness:
  "map nextOccurrence (snd (updateEvent alice_later [inserted_A] ''e2''
                              (empty_event\<lparr> recurrence := Null \<rparr>))) = [Val (Time 1709366400000)]
   \<and> map recurrence (snd (updateEvent alice_later [inserted_A] ''e2''
                             (empty_event\<lparr> recurrence := Null \<rparr>))) = [Null]"
  using update_clearing_recurrence_keeps_nextOccurrence by (simp add: inserted_A_def)

text \<open>
  C8 (fails on the code). The validator asks for a \<^verbatim>\<open>fishId\<close> on a fish event and says nothing
  about one on an aquarium event. Inserting an aquarium payload that carries \<^verbatim>\<open>fishId\<close> stores
  it, and so does turning the fish event A into an aquarium event.
\<close>

theorem aquarium_event_keeps_fishId:
  "(\<exists>d. insertEvent alice [] payload_clean = (Inr ''e2'', [d])
        \<and> targetType d = Val ''aquarium'' \<and> fishId d = Val ''f1'')
   \<and> updateEvent alice_later [inserted_A] ''e2'' (empty_event\<lparr> targetType := Val ''aquarium'' \<rparr>)
       = (Inr True, [inserted_A\<lparr> targetType := Val ''aquarium'',
                                 updatedAt := Val (Time 1706800000000) \<rparr>])
   \<and> fishId (inserted_A\<lparr> targetType := Val ''aquarium'', updatedAt := Val (Time 1706800000000) \<rparr>)
       = Val ''f1''"
proof -
  have "insertEvent alice [] payload_clean
      = (Inr ''e2'', [(eventToInsert alice payload_clean)\<lparr> doc_id := Val ''e2'' \<rparr>])"
    by code_simp
  moreover have "targetType ((eventToInsert alice payload_clean)\<lparr> doc_id := Val ''e2'' \<rparr>)
      = Val ''aquarium''"
    by code_simp
  moreover have "fishId ((eventToInsert alice payload_clean)\<lparr> doc_id := Val ''e2'' \<rparr>) = Val ''f1''"
    by code_simp
  moreover have "updateEvent alice_later [inserted_A] ''e2''
        (empty_event\<lparr> targetType := Val ''aquarium'' \<rparr>)
       = (Inr True, [inserted_A\<lparr> targetType := Val ''aquarium'',
                                 updatedAt := Val (Time 1706800000000) \<rparr>])"
    by code_simp
  moreover have "fishId (inserted_A\<lparr> targetType := Val ''aquarium'',
      updatedAt := Val (Time 1706800000000) \<rparr>) = Val ''f1''"
    by code_simp
  ultimately show ?thesis by blast
qed

theorem aquarium_event_keeps_fishId_witness:
  "map fishId (snd (updateEvent alice_later [inserted_A] ''e2''
                      (empty_event\<lparr> targetType := Val ''aquarium'' \<rparr>))) = [Val ''f1'']
   \<and> map targetType (snd (updateEvent alice_later [inserted_A] ''e2''
                      (empty_event\<lparr> targetType := Val ''aquarium'' \<rparr>))) = [Val ''aquarium'']"
  using aquarium_event_keeps_fishId by (simp add: inserted_A_def)

subsection \<open>Dates\<close>

lemma MonthFromTime_range: "0 \<le> MonthFromTime t \<and> MonthFromTime t \<le> 11"
  by (simp add: MonthFromTime_def Let_def)

lemma MakeDay_in_year:
  assumes "0 \<le> m" and "m \<le> 11"
  shows "MakeDay y m d = DayFromYear y + month_start (if DaysInYear y = 366 then 1 else 0) m + d - 1"
proof -
  from assms have "m div 12 = 0" and "m mod 12 = m" by simp_all
  then show ?thesis by (simp add: MakeDay_def)
qed

lemma MakeDay_same_month:
  "MakeDay (YearFromTime l) (MonthFromTime l) (DateFromTime l + k) = Day l + k"
proof -
  have "MakeDay (YearFromTime l) (MonthFromTime l) (DateFromTime l + k)
      = DayFromYear (YearFromTime l)
        + month_start (if DaysInYear (YearFromTime l) = 366 then 1 else 0) (MonthFromTime l)
        + (DateFromTime l + k) - 1"
    using MonthFromTime_range [of l] by (intro MakeDay_in_year) simp_all
  then show ?thesis
    by (simp add: DateFromTime_def DayWithinYear_def InLeapYear_def)
qed

lemma setDate_getDate:
  "setDate z (Time t) (num_plus (getDate z (Time t)) k)
     = local_instant z (LocalTime z t + k * msPerDay)"
proof -
  have "MakeDate (Day l + k) (TimeWithinDay l) = l + k * msPerDay" for l
    by (simp add: MakeDate_def Day_def TimeWithinDay_def algebra_simps)
  then show ?thesis
    by (simp add: setDate_def getDate_def num_plus_def local_instant_def MakeDay_same_month)
qed

lemma daily_weekly:
  "calculateNextOccurrence z (Val (Time t)) (Val ''daily'')
     = Val (local_instant z (LocalTime z t + msPerDay))"
  "calculateNextOccurrence z (Val (Time t)) (Val ''weekly'')
     = Val (local_instant z (LocalTime z t + 7 * msPerDay))"
  using setDate_getDate [of z t 1] setDate_getDate [of z t 7]
  by (simp_all add: calculateNextOccurrence_def new_Date_def)

lemma fixed_offset_instant:
  "local_instant (fixed_offset k) (LocalTime (fixed_offset k) t + n) = TimeClip (t + n)"
  by (simp add: local_instant_def LocalTime_def UTC_def fixed_offset_def)

lemma invalid_anchor:
  "r \<in> set validRecurrences \<Longrightarrow> calculateNextOccurrence z (Val Invalid) (Val r) = Val Invalid"
  by (auto simp: validRecurrences_def calculateNextOccurrence_def new_Date_def setDate_def
        setMonth_def getDate_def getMonth_def num_plus_def)

lemma div_bounds:
  fixes a k :: int
  assumes "0 < k"
  shows "k * (a div k) \<le> a" and "a < k * (a div k) + k"
proof -
  have e: "k * (a div k) + a mod k = a" by (rule mult_div_mod_eq)
  from assms have "0 \<le> a mod k" "a mod k < k" by simp_all
  with e show "k * (a div k) \<le> a" and "a < k * (a div k) + k"
    by linarith+
qed

lemma div_succ:
  fixes a k :: int
  assumes "1 < k"
  shows "(a + 1) div k = a div k + (if (a + 1) mod k = 0 then 1 else 0)"
proof (cases "a mod k = k - 1")
  case True
  have m: "k * (a div k) + a mod k = a" by (rule mult_div_mod_eq)
  have "k * (a div k + 1) + 0 = k * (a div k) + k" by (simp add: algebra_simps)
  with m True have e: "a + 1 = k * (a div k + 1) + 0" by linarith
  from assms have "(a + 1) div k = a div k + 1"
    by (intro int_div_pos_eq [OF e]) simp_all
  moreover from assms have "(a + 1) mod k = 0"
    by (intro int_mod_pos_eq [OF e]) simp_all
  ultimately show ?thesis by simp
next
  case False
  from assms have "0 \<le> a mod k" "a mod k < k" by simp_all
  with False have r: "0 \<le> a mod k + 1" "a mod k + 1 < k" by simp_all
  have m: "k * (a div k) + a mod k = a" by (rule mult_div_mod_eq)
  then have e: "a + 1 = k * (a div k) + (a mod k + 1)" by linarith
  have "(a + 1) div k = a div k"
    by (rule int_div_pos_eq [OF e r])
  moreover have "(a + 1) mod k = a mod k + 1"
    by (rule int_mod_pos_eq [OF e r])
  ultimately show ?thesis using r \<open>0 \<le> a mod k\<close> by simp
qed


lemma m4: "((y::int) - 1968) mod 4 = y mod 4"
  using mod_mult_self1 [of y "- 492" 4] by simp
lemma m100: "((y::int) - 1900) mod 100 = y mod 100"
  using mod_mult_self1 [of y "- 19" 100] by simp
lemma m400: "((y::int) - 1600) mod 400 = y mod 400"
  using mod_mult_self1 [of y "- 4" 400] by simp
lemma md: "(y::int) mod 400 = 0 \<Longrightarrow> y mod 100 = 0" "(y::int) mod 100 = 0 \<Longrightarrow> y mod 4 = 0"
  by (simp_all add: mod_eq_0_iff_dvd) (auto elim: dvd_trans [rotated])

lemma DayFromYear_Suc: "DayFromYear (y + 1) = DayFromYear y + DaysInYear y"
proof -
  have a: "(y + 1 - 1969) div 4 = (y - 1969) div 4 + (if y mod 4 = 0 then 1 else 0)"
    using div_succ [of 4 "y - 1969"] by (simp add: m4 algebra_simps)
  have b: "(y + 1 - 1901) div 100 = (y - 1901) div 100 + (if y mod 100 = 0 then 1 else 0)"
    using div_succ [of 100 "y - 1901"] by (simp add: m100 algebra_simps)
  have c: "(y + 1 - 1601) div 400 = (y - 1601) div 400 + (if y mod 400 = 0 then 1 else 0)"
    using div_succ [of 400 "y - 1601"] by (simp add: m400 algebra_simps)
  show ?thesis
    unfolding DayFromYear_def DaysInYear_def a b c using md [of y] by auto
qed

lemma DaysInYear_range: "365 \<le> DaysInYear y" "DaysInYear y \<le> 366"
  by (simp_all add: DaysInYear_def)

lemma DayFromYear_mono_nat: "DayFromYear y \<le> DayFromYear (y + int n)"
proof (induction n)
  case 0
  then show ?case by simp
next
  case (Suc n)
  have "DayFromYear (y + int n + 1) = DayFromYear (y + int n) + DaysInYear (y + int n)"
    by (rule DayFromYear_Suc)
  moreover have e: "y + int (Suc n) = y + int n + 1" by simp
  ultimately show ?case
    unfolding e using Suc DaysInYear_range(1) [of "y + int n"] by linarith
qed

lemma DayFromYear_mono: "a \<le> b \<Longrightarrow> DayFromYear a \<le> DayFromYear b"
  using DayFromYear_mono_nat [of a "nat (b - a)"] by simp

lemma YearFromTime_bounds:
  "DayFromYear (YearFromTime t) \<le> Day t \<and> Day t < DayFromYear (YearFromTime t + 1)"
proof -
  define d where "d = Day t"
  define q where "q = (400 * d) div 146097"
  have q: "146097 * q \<le> 400 * d" "400 * d < 146097 * q + 146097"
    unfolding q_def using div_bounds [of 146097 "400 * d"] by simp_all
  have lo: "DayFromYear (1970 + q - 1) \<le> d"
  proof -
    define a where "a = (q + 0) div 4"
    define b where "b = (q + 68) div 100"
    define c where "c = (q + 368) div 400"
    have "4 * a \<le> q + 0" "q + 68 < 100 * b + 100" "400 * c \<le> q + 368"
      unfolding a_def b_def c_def
      using div_bounds [of 4 "q + 0"] div_bounds [of 100 "q + 68"] div_bounds [of 400 "q + 368"]
      by simp_all
    then have s: "400 * a \<le> 100 * q" "4 * q + 272 < 400 * b + 400" "400 * c \<le> q + 368"
      by simp_all
    have "DayFromYear (1970 + q - 1) = 365 * (q - 1) + a - b + c"
      by (simp add: DayFromYear_def a_def b_def c_def algebra_simps)
    then have "400 * DayFromYear (1970 + q - 1)
        = 146000 * q - 146000 + 400 * a - 400 * b + 400 * c"
      by (simp add: algebra_simps)
    with s q have "400 * DayFromYear (1970 + q - 1) \<le> 400 * d" by linarith
    then show ?thesis by simp
  qed
  have hi: "d < DayFromYear (1970 + q + 2)"
  proof -
    define a where "a = (q + 3) div 4"
    define b where "b = (q + 71) div 100"
    define c where "c = (q + 371) div 400"
    have "q + 3 < 4 * a + 4" "100 * b \<le> q + 71" "q + 371 < 400 * c + 400"
      unfolding a_def b_def c_def
      using div_bounds [of 4 "q + 3"] div_bounds [of 100 "q + 71"] div_bounds [of 400 "q + 371"]
      by simp_all
    then have s: "100 * q + 300 < 400 * a + 400" "400 * b \<le> 4 * q + 284"
        "q + 371 < 400 * c + 400"
      by simp_all
    have "DayFromYear (1970 + q + 2) = 365 * (q + 2) + a - b + c"
      by (simp add: DayFromYear_def a_def b_def c_def algebra_simps)
    then have "400 * DayFromYear (1970 + q + 2)
        = 146000 * q + 292000 + 400 * a - 400 * b + 400 * c"
      by (simp add: algebra_simps)
    with s q have "400 * d < 400 * DayFromYear (1970 + q + 2)" by linarith
    then show ?thesis by simp
  qed
  have y: "YearFromTime t =
      (if DayFromYear (1970 + q + 1) \<le> d then 1970 + q + 1
       else if DayFromYear (1970 + q) \<le> d then 1970 + q else 1970 + q - 1)"
    by (simp add: YearFromTime_def Let_def d_def q_def)
  have s: "1970 + q + 1 + 1 = 1970 + q + 2" "1970 + q - 1 + 1 = 1970 + q" by simp_all
  show ?thesis
    unfolding d_def [symmetric] y using lo hi by (auto simp: s)
qed

lemma YearFromTime_unique:
  assumes "DayFromYear y \<le> Day t" and "Day t < DayFromYear (y + 1)"
  shows "YearFromTime t = y"
proof (rule ccontr)
  assume ne: "YearFromTime t \<noteq> y"
  note b = YearFromTime_bounds [of t]
  show False
  proof (cases "YearFromTime t < y")
    case True
    then have "DayFromYear (YearFromTime t + 1) \<le> DayFromYear y"
      by (intro DayFromYear_mono) simp
    with b assms show False by simp
  next
    case False
    with ne have "DayFromYear (y + 1) \<le> DayFromYear (YearFromTime t)"
      by (intro DayFromYear_mono) simp
    with b assms show False by simp
  qed
qed

lemma leap_flag: "(if DaysInYear y = 366 then 1 else 0) = DaysInYear y - (365::int)"
  by (simp add: DaysInYear_def)

lemma month_start_next:
  assumes "0 \<le> m" and "m < 11"
  shows "month_start (if DaysInYear y = 366 then 1 else 0) (m + 1)
       = month_start (if DaysInYear y = 366 then 1 else 0) m + DaysInMonth y m"
proof -
  from assms have "m = 0 \<or> m = 1 \<or> m = 2 \<or> m = 3 \<or> m = 4 \<or> m = 5 \<or> m = 6 \<or> m = 7
      \<or> m = 8 \<or> m = 9 \<or> m = 10" by arith
  then show ?thesis
    by (elim disjE) (simp_all add: month_start_def DaysInMonth_def)
qed

lemma month_start_last:
  "month_start (if DaysInYear y = 366 then 1 else 0) 11 + DaysInMonth y 11 = DaysInYear y"
  by (simp add: month_start_def DaysInMonth_def DaysInYear_def)

lemma month_start_mono:
  assumes "0 \<le> m" and "m \<le> 11"
  shows "0 \<le> month_start (if DaysInYear y = 366 then 1 else 0) m
       \<and> month_start (if DaysInYear y = 366 then 1 else 0) m + DaysInMonth y m \<le> DaysInYear y"
proof -
  from assms have "m = 0 \<or> m = 1 \<or> m = 2 \<or> m = 3 \<or> m = 4 \<or> m = 5 \<or> m = 6 \<or> m = 7
      \<or> m = 8 \<or> m = 9 \<or> m = 10 \<or> m = 11" by arith
  then show ?thesis
    by (elim disjE) (simp_all add: month_start_def DaysInMonth_def DaysInYear_def)
qed

lemma Day_MakeDate:
  assumes "0 \<le> tod" and "tod < msPerDay"
  shows "Day (MakeDate dy tod) = dy" and "TimeWithinDay (MakeDate dy tod) = tod"
proof -
  have e: "MakeDate dy tod = msPerDay * dy + tod" by (simp add: MakeDate_def)
  from assms show "Day (MakeDate dy tod) = dy"
    unfolding Day_def by (intro int_div_pos_eq [OF e]) simp_all
  from assms show "TimeWithinDay (MakeDate dy tod) = tod"
    unfolding TimeWithinDay_def by (intro int_mod_pos_eq [OF e]) simp_all
qed

lemma civil_MakeDay:
  assumes m: "0 \<le> m" "m \<le> 11" and d: "1 \<le> d" "d \<le> DaysInMonth y m"
      and tod: "0 \<le> tod" "tod < msPerDay"
  shows "civil (MakeDate (MakeDay y m d) tod) = (y, m, d)"
proof -
  define t where "t = MakeDate (MakeDay y m d) tod"
  define l :: int where "l = (if DaysInYear y = 366 then 1 else 0)"
  have day: "Day t = DayFromYear y + month_start l m + d - 1"
    unfolding t_def l_def using m tod by (simp add: Day_MakeDate MakeDay_in_year)
  from month_start_mono [OF m, of y] d
  have rng: "0 \<le> month_start l m + d - 1" "month_start l m + d - 1 < DaysInYear y"
    unfolding l_def by linarith+
  have year: "YearFromTime t = y"
    using day rng by (intro YearFromTime_unique) (simp_all add: DayFromYear_Suc)
  then have leap: "InLeapYear t = l" by (simp add: InLeapYear_def l_def)
  from day year have dwy: "DayWithinYear t = month_start l m + d - 1"
    by (simp add: DayWithinYear_def)
  from m have cases: "m = 0 \<or> m = 1 \<or> m = 2 \<or> m = 3 \<or> m = 4 \<or> m = 5 \<or> m = 6 \<or> m = 7
      \<or> m = 8 \<or> m = 9 \<or> m = 10 \<or> m = 11" by arith
  have l01: "l = 0 \<or> l = 1" by (simp add: l_def)
  have month: "MonthFromTime t = m"
    using cases d l01 unfolding MonthFromTime_def dwy leap Let_def
    by (elim disjE) (simp_all add: month_start_def DaysInMonth_def l_def split: if_splits)
  from month dwy leap have "DateFromTime t = d" by (simp add: DateFromTime_def)
  with year month show ?thesis by (simp add: civil_def t_def)
qed

lemma DayWithinYear_range: "0 \<le> DayWithinYear t \<and> DayWithinYear t < DaysInYear (YearFromTime t)"
  using YearFromTime_bounds [of t] by (simp add: DayWithinYear_def DayFromYear_Suc)

lemma DateFromTime_range:
  "1 \<le> DateFromTime t \<and> DateFromTime t \<le> DaysInMonth (YearFromTime t) (MonthFromTime t)"
proof -
  define w where "w = DayWithinYear t"
  define y where "y = YearFromTime t"
  have l: "InLeapYear t = (if DaysInYear y = 366 then 1 else 0)"
    by (simp add: InLeapYear_def y_def)
  from DayWithinYear_range [of t] have w: "0 \<le> w" "w < DaysInYear y"
    by (simp_all add: w_def y_def)
  show ?thesis
  proof (cases "DaysInYear y = 366")
    case True
    with w l show ?thesis
      unfolding DateFromTime_def MonthFromTime_def w_def [symmetric] y_def [symmetric] Let_def
      by (simp add: month_start_def DaysInMonth_def)
  next
    case False
    with DaysInYear_range [of y] have "DaysInYear y = 365" by (simp add: DaysInYear_def split: if_splits)
    with w l show ?thesis
      unfolding DateFromTime_def MonthFromTime_def w_def [symmetric] y_def [symmetric] Let_def
      by (simp add: month_start_def DaysInMonth_def)
  qed
qed

lemma DaysInMonth_range: "28 \<le> DaysInMonth y m" "DaysInMonth y m \<le> 31"
  by (simp_all add: DaysInMonth_def)

lemma MakeDay_next_month:
  assumes "0 \<le> m" and "m \<le> 11"
  shows "MakeDay y (m + 1) d = (case next_month y m of (y', m') \<Rightarrow> MakeDay y' m' d)"
proof (cases "m = 11")
  case True
  then show ?thesis by (simp add: next_month_def MakeDay_def)
next
  case False
  then show ?thesis by (simp add: next_month_def)
qed

lemma MakeDay_overflow:
  assumes "0 \<le> m" and "m < 11"
  shows "MakeDay y m d = MakeDay y (m + 1) (d - DaysInMonth y m)"
  using assms by (simp add: MakeDay_in_year month_start_next)

lemma TimeWithinDay_range: "0 \<le> TimeWithinDay t" "TimeWithinDay t < msPerDay"
  by (simp_all add: TimeWithinDay_def msPerDay_def)

lemma civil_roll:
  assumes m: "0 \<le> m" "m \<le> 11" and d: "1 \<le> d" "d \<le> 31"
      and tod: "0 \<le> tod" "tod < msPerDay"
  shows "civil (MakeDate (MakeDay y m d) tod)
       = (if d \<le> DaysInMonth y m then (y, m, d) else (y, m + 1, d - DaysInMonth y m))"
proof (cases "d \<le> DaysInMonth y m")
  case True
  with m d tod show ?thesis by (simp add: civil_MakeDay)
next
  case False
  with d have short: "DaysInMonth y m < 31" by simp
  then have m': "m = 1 \<or> m = 3 \<or> m = 5 \<or> m = 8 \<or> m = 10"
    by (simp add: DaysInMonth_def split: if_splits)
  then have lt: "m < 11" and nxt: "DaysInMonth y (m + 1) = 31"
    by (auto simp: DaysInMonth_def)
  from False d DaysInMonth_range(1) [of y m]
  have d': "1 \<le> d - DaysInMonth y m" "d - DaysInMonth y m \<le> DaysInMonth y (m + 1)"
    unfolding nxt by linarith+
  from m lt have "MakeDay y m d = MakeDay y (m + 1) (d - DaysInMonth y m)"
    by (intro MakeDay_overflow) simp_all
  moreover from m lt d' tod
  have "civil (MakeDate (MakeDay y (m + 1) (d - DaysInMonth y m)) tod)
      = (y, m + 1, d - DaysInMonth y m)"
    by (intro civil_MakeDay) simp_all
  ultimately show ?thesis using False by simp
qed

lemma next_month_range:
  assumes "0 \<le> m" and "m \<le> 11"
  shows "0 \<le> snd (next_month y m) \<and> snd (next_month y m) \<le> 11"
  using assms by (simp add: next_month_def)

lemma monthly:
  "\<exists>x. calculateNextOccurrence z (Val (Time t)) (Val ''monthly'') = Val (local_instant z x)
       \<and> TimeWithinDay x = TimeWithinDay (LocalTime z t)
       \<and> civil x =
           (case civil (LocalTime z t) of (y, m, d) \<Rightarrow>
              case next_month y m of (y', m') \<Rightarrow>
                if d \<le> DaysInMonth y' m' then (y', m', d)
                else (y', m' + 1, d - DaysInMonth y' m'))"
proof -
  define l where "l = LocalTime z t"
  define y where "y = YearFromTime l"
  define m where "m = MonthFromTime l"
  define d where "d = DateFromTime l"
  define y' where "y' = fst (next_month y m)"
  define m' where "m' = snd (next_month y m)"
  define x where "x = MakeDate (MakeDay y' m' d) (TimeWithinDay l)"
  have m: "0 \<le> m" "m \<le> 11"
    using MonthFromTime_range [of l] by (simp_all add: m_def)
  have d: "1 \<le> d" "d \<le> 31"
    using DateFromTime_range [of l] DaysInMonth_range(2) [of y m]
    by (simp_all add: d_def y_def m_def)
  have m'r: "0 \<le> m'" "m' \<le> 11"
    using next_month_range [OF m, of y] by (simp_all add: m'_def)
  have nm: "next_month y m = (y', m')" by (simp add: y'_def m'_def)
  have "MakeDay y (m + 1) d = MakeDay y' m' d"
    using MakeDay_next_month [OF m, of y d] by (simp add: nm)
  then have calc: "calculateNextOccurrence z (Val (Time t)) (Val ''monthly'')
      = Val (local_instant z x)"
    by (simp add: calculateNextOccurrence_def new_Date_def setMonth_def getMonth_def
        num_plus_def local_instant_def x_def l_def y_def m_def d_def Let_def)
  have tod: "TimeWithinDay x = TimeWithinDay l"
    unfolding x_def using TimeWithinDay_range [of l] by (simp add: Day_MakeDate)
  have "civil x
      = (if d \<le> DaysInMonth y' m' then (y', m', d) else (y', m' + 1, d - DaysInMonth y' m'))"
    unfolding x_def using m'r d TimeWithinDay_range [of l] by (intro civil_roll) simp_all
  moreover have "civil l = (y, m, d)"
    by (simp add: civil_def y_def m_def d_def)
  ultimately have "civil x =
      (case civil l of (y, m, d) \<Rightarrow>
         case next_month y m of (y', m') \<Rightarrow>
           if d \<le> DaysInMonth y' m' then (y', m', d)
           else (y', m' + 1, d - DaysInMonth y' m'))"
    by (simp add: nm)
  with calc tod show ?thesis unfolding l_def by blast
qed

text \<open>
  C7 (as amended). \<^verbatim>\<open>calculateNextOccurrence\<close> is a function of the anchor \<open>t\<close>, the rule and the
  time zone \<open>z\<close> of the host, and it computes in the local time of the host. For \<^verbatim>\<open>daily\<close> it
  returns the instant at which the clocks of the host show the local time of \<open>t\<close> plus one
  day, for \<^verbatim>\<open>weekly\<close> plus seven days. For \<^verbatim>\<open>monthly\<close> it returns the instant of a local time \<open>x\<close>
  with the time of day of \<open>t\<close>, whose calendar date is the day of the month of \<open>t\<close> in the next
  calendar month; when that month has no such day, the date rolls over into the month after
  it by the days that are missing. A result more than 8.64e15 ms away from the epoch is an
  invalid Date, and so is the result for an invalid anchor. On a host whose offset from UTC
  never changes the results for \<^verbatim>\<open>daily\<close> and \<^verbatim>\<open>weekly\<close> are \<open>t\<close> plus 86400000 ms and \<open>t\<close> plus
  604800000 ms. For the anchor 2024-01-31T08:00Z on a host in UTC the result for \<^verbatim>\<open>monthly\<close> is
  2024-03-02T08:00Z (February 2024 has 29 days), and the inserted event has that value as
  \<^verbatim>\<open>nextOccurrence\<close>.
\<close>

theorem calculateNextOccurrence_rules:
  "calculateNextOccurrence z (Val (Time t)) (Val ''daily'')
     = Val (local_instant z (LocalTime z t + msPerDay))
   \<and> calculateNextOccurrence z (Val (Time t)) (Val ''weekly'')
       = Val (local_instant z (LocalTime z t + 7 * msPerDay))
   \<and> (\<exists>x. calculateNextOccurrence z (Val (Time t)) (Val ''monthly'') = Val (local_instant z x)
          \<and> TimeWithinDay x = TimeWithinDay (LocalTime z t)
          \<and> civil x =
              (case civil (LocalTime z t) of (y, m, d) \<Rightarrow>
                 case next_month y m of (y', m') \<Rightarrow>
                   if d \<le> DaysInMonth y' m' then (y', m', d)
                   else (y', m' + 1, d - DaysInMonth y' m')))
   \<and> calculateNextOccurrence z (Val Invalid) (Val ''daily'') = Val Invalid
   \<and> calculateNextOccurrence z (Val Invalid) (Val ''weekly'') = Val Invalid
   \<and> calculateNextOccurrence z (Val Invalid) (Val ''monthly'') = Val Invalid
   \<and> calculateNextOccurrence (fixed_offset k) (Val (Time t)) (Val ''daily'')
       = Val (TimeClip (t + 86400000))
   \<and> calculateNextOccurrence (fixed_offset k) (Val (Time t)) (Val ''weekly'')
       = Val (TimeClip (t + 7 * 86400000))
   \<and> civil 1706688000000 = (2024, 0, 31) \<and> TimeWithinDay 1706688000000 = 8 * 3600000
   \<and> calculateNextOccurrence (fixed_offset 0) (Val (Time 1706688000000)) (Val ''monthly'')
       = Val (Time 1709366400000)
   \<and> civil 1709366400000 = (2024, 2, 2) \<and> TimeWithinDay 1709366400000 = 8 * 3600000
   \<and> insertEvent alice [] payload_A = (Inr ''e2'', [inserted_A])
   \<and> nextOccurrence inserted_A = Val (Time 1709366400000)"
proof -
  have a: "calculateNextOccurrence z (Val (Time t)) (Val ''daily'')
             = Val (local_instant z (LocalTime z t + msPerDay))"
      "calculateNextOccurrence z (Val (Time t)) (Val ''weekly'')
             = Val (local_instant z (LocalTime z t + 7 * msPerDay))"
    by (simp_all add: daily_weekly)
  have i: "calculateNextOccurrence z (Val Invalid) (Val ''daily'') = Val Invalid"
      "calculateNextOccurrence z (Val Invalid) (Val ''weekly'') = Val Invalid"
      "calculateNextOccurrence z (Val Invalid) (Val ''monthly'') = Val Invalid"
    by (simp_all add: invalid_anchor validRecurrences_def)
  have f: "calculateNextOccurrence (fixed_offset k) (Val (Time t)) (Val ''daily'')
             = Val (TimeClip (t + 86400000))"
      "calculateNextOccurrence (fixed_offset k) (Val (Time t)) (Val ''weekly'')
             = Val (TimeClip (t + 7 * 86400000))"
    by (simp_all add: daily_weekly fixed_offset_instant msPerDay_def)
  have b: "civil 1706688000000 = (2024, 0, 31)" "TimeWithinDay 1706688000000 = 8 * 3600000"
      "calculateNextOccurrence (fixed_offset 0) (Val (Time 1706688000000)) (Val ''monthly'')
         = Val (Time 1709366400000)"
      "civil 1709366400000 = (2024, 2, 2)" "TimeWithinDay 1709366400000 = 8 * 3600000"
    by code_simp+
  have c: "insertEvent alice [] payload_A = (Inr ''e2'', [inserted_A])"
      "nextOccurrence inserted_A = Val (Time 1709366400000)"
    by code_simp+
  from a i f b c monthly [of z t] show ?thesis by blast
qed

text \<open>
  On a host in Paris, from 15 December 2023, 08:00 UTC: a month later is 15 January 2024 at
  the same local time, and a day later is 16 December.
\<close>

theorem calculateNextOccurrence_rules_witness:
  "(\<exists>x. calculateNextOccurrence paris (Val (Time 1702627200000)) (Val ''monthly'')
           = Val (local_instant paris x)
        \<and> civil x = (2024, 0, 15) \<and> TimeWithinDay x = 9 * 3600000)
   \<and> calculateNextOccurrence paris (Val (Time 1702627200000)) (Val ''daily'')
       = Val (Time 1702713600000)"
proof -
  have l: "LocalTime paris 1702627200000 = 1702630800000"
    by code_simp
  have c: "civil 1702630800000 = (2023, 11, 15)" "TimeWithinDay 1702630800000 = 9 * 3600000"
    by code_simp+
  from calculateNextOccurrence_rules [of paris 1702627200000]
  obtain x where x: "calculateNextOccurrence paris (Val (Time 1702627200000)) (Val ''monthly'')
         = Val (local_instant paris x)"
      "TimeWithinDay x = TimeWithinDay (LocalTime paris 1702627200000)"
      "civil x =
         (case civil (LocalTime paris 1702627200000) of (y, m, d) \<Rightarrow>
            case next_month y m of (y', m') \<Rightarrow>
              if d \<le> DaysInMonth y' m' then (y', m', d)
              else (y', m' + 1, d - DaysInMonth y' m'))"
    by blast
  have "civil x = (2024, 0, 15)"
    using x(3) unfolding l c by (simp add: next_month_def DaysInMonth_def DaysInYear_def)
  moreover have "TimeWithinDay x = 9 * 3600000"
    using x(2) unfolding l c by simp
  moreover have "local_instant paris (1702630800000 + msPerDay) = Time 1702713600000"
    by code_simp
  then have "calculateNextOccurrence paris (Val (Time 1702627200000)) (Val ''daily'')
      = Val (Time 1702713600000)"
    using calculateNextOccurrence_rules [of paris 1702627200000] unfolding l by simp
  ultimately show ?thesis using x(1) by blast
qed

text \<open>
  The claim as it was stated fails. On a host in Paris the day after 2024-03-30T12:00Z
  (13:00 local time) is 2024-03-31T11:00Z (13:00 local time, in summer time): 23 hours
  later, not 24. And for the last valid time value the result is an invalid Date.
\<close>

theorem calculateNextOccurrence_counterexample:
  "calculateNextOccurrence paris (Val (Time 1711800000000)) (Val ''daily'')
     = Val (Time (1711800000000 + 82800000))
   \<and> calculateNextOccurrence paris (Val (Time 1711800000000)) (Val ''daily'')
       \<noteq> Val (Time (1711800000000 + 86400000))
   \<and> calculateNextOccurrence (fixed_offset 0) (Val (Time 8640000000000000)) (Val ''daily'')
       = Val Invalid"
proof -
  have "calculateNextOccurrence paris (Val (Time 1711800000000)) (Val ''daily'')
     = Val (Time 1711882800000)"
    by code_simp
  moreover have "calculateNextOccurrence (fixed_offset 0) (Val (Time 8640000000000000))
      (Val ''daily'') = Val Invalid"
    by code_simp
  ultimately show ?thesis by simp
qed

subsection \<open>Double precision\<close>

lemma bitlen_rat:
  assumes "0 < a"
  shows "power_int 2 (bitlen a - 1) \<le> (of_int a :: rat)"
    and "(of_int a :: rat) < power_int 2 (bitlen a)"
proof -
  from assms have b: "1 \<le> bitlen a" by (simp add: bitlen_alt_def)
  from bitlen_bounds [OF assms] have "2 ^ nat (bitlen a - 1) \<le> a" "a < 2 ^ nat (bitlen a)"
    by simp_all
  then have "(of_int (2 ^ nat (bitlen a - 1)) :: rat) \<le> of_int a"
      "(of_int a :: rat) < of_int (2 ^ nat (bitlen a))"
    by (simp_all only: of_int_le_iff of_int_less_iff)
  with b show "power_int 2 (bitlen a - 1) \<le> (of_int a :: rat)"
      and "(of_int a :: rat) < power_int 2 (bitlen a)"
    by (simp_all add: power_int_def)
qed

lemma ilog2_bounds:
  assumes "0 < x"
  shows "power_int 2 (ilog2 x) \<le> x" and "x < power_int 2 (ilog2 x + 1)"
proof -
  obtain p q where pq: "quotient_of x = (p, q)" by (cases "quotient_of x")
  then have q: "0 < q" and x: "x = of_int p / of_int q"
    by (simp_all add: quotient_of_denom_pos quotient_of_div)
  with assms have p: "0 < p" by (simp add: zero_less_divide_iff)
  define k where "k = bitlen p - bitlen q"
  have "x < power_int 2 (bitlen p) / power_int 2 (bitlen q - 1)"
    unfolding x using bitlen_rat [OF p] bitlen_rat [OF q] p
    by (intro frac_less) simp_all
  also have "\<dots> = power_int 2 (bitlen p - (bitlen q - 1))"
    by (rule power_int_diff [symmetric]) simp
  also have "bitlen p - (bitlen q - 1) = k + 1"
    by (simp add: k_def)
  finally have up: "x < power_int 2 (k + 1)" .
  have "power_int 2 (bitlen p - 1) / power_int 2 (bitlen q) \<le> x"
    unfolding x using bitlen_rat [OF p] bitlen_rat [OF q] p q
    by (intro frac_le) simp_all
  moreover have "power_int 2 (bitlen p - 1) / power_int 2 (bitlen q)
      = (power_int 2 (bitlen p - 1 - bitlen q) :: rat)"
    by (rule power_int_diff [symmetric]) simp
  moreover have "bitlen p - 1 - bitlen q = k - 1"
    by (simp add: k_def)
  ultimately have lo: "power_int 2 (k - 1) \<le> x" by simp
  have e: "ilog2 x = (if power_int 2 k \<le> x then k else k - 1)"
    by (simp add: ilog2_def pq k_def Let_def)
  show "power_int 2 (ilog2 x) \<le> x"
    unfolding e using lo by simp
  show "x < power_int 2 (ilog2 x + 1)"
    unfolding e using up by (simp add: not_le)
qed

lemma rne_le:
  assumes "y \<le> of_int n"
  shows "rne y \<le> n"
proof -
  from assms have f: "\<lfloor>y\<rfloor> \<le> n" by (simp add: floor_le_iff)
  show ?thesis
  proof (cases "y = of_int \<lfloor>y\<rfloor>")
    case True
    then have "y - of_int \<lfloor>y\<rfloor> = 0" by simp
    then have "rne y = \<lfloor>y\<rfloor>" by (simp add: rne_def Let_def)
    with f show ?thesis by simp
  next
    case False
    then have "of_int \<lfloor>y\<rfloor> < y" using of_int_floor_le [of y] by linarith
    with assms have "(of_int \<lfloor>y\<rfloor> :: rat) < of_int n" by linarith
    then have "\<lfloor>y\<rfloor> + 1 \<le> n" by simp
    moreover have "rne y \<le> \<lfloor>y\<rfloor> + 1" by (simp add: rne_def Let_def)
    ultimately show ?thesis by linarith
  qed
qed

lemma rne_ge:
  assumes "of_int n \<le> y"
  shows "n \<le> rne y"
proof -
  from assms have "n \<le> \<lfloor>y\<rfloor>" by (simp add: le_floor_iff)
  moreover have "\<lfloor>y\<rfloor> \<le> rne y" by (simp add: rne_def Let_def)
  ultimately show ?thesis by linarith
qed

lemma pow2_pos: "0 < (power_int 2 k :: rat)"
  by (simp add: power_int_def)

lemma fl_pos_eq:
  assumes "0 < x"
  shows "fl x = of_int (rne (x * power_int 2 (52 - ilog2 x))) / power_int 2 (52 - ilog2 x)"
  using assms by (simp add: fl_def Let_def)

lemma fl_nonneg:
  assumes "0 \<le> x"
  shows "0 \<le> fl x"
proof (cases "x = 0")
  case True
  then show ?thesis by (simp add: fl_def)
next
  case False
  with assms have x: "0 < x" by simp
  define s :: rat where "s = power_int 2 (52 - ilog2 x)"
  have s: "0 < s" unfolding s_def by (rule pow2_pos)
  with x have "of_int 0 \<le> x * s" by simp
  then have "0 \<le> rne (x * s)" by (rule rne_ge)
  with s show ?thesis unfolding fl_pos_eq [OF x] s_def [symmetric] by simp
qed

lemma ilog2_mono:
  assumes "0 < x" and "x \<le> b"
  shows "ilog2 x \<le> ilog2 b"
proof (rule ccontr)
  assume "\<not> ilog2 x \<le> ilog2 b"
  then have "ilog2 b + 1 \<le> ilog2 x" by simp
  then have "(power_int 2 (ilog2 b + 1) :: rat) \<le> power_int 2 (ilog2 x)"
    by (intro power_int_increasing) simp_all
  moreover from assms have "0 < b" by simp
  ultimately show False
    using ilog2_bounds(1) [OF assms(1)] ilog2_bounds(2) [of b] assms(2) by linarith
qed

lemma fl_le_next_power:
  assumes "0 < x"
  shows "fl x \<le> power_int 2 (ilog2 x + 1)"
proof -
  define e where "e = ilog2 x"
  define s :: rat where "s = power_int 2 (52 - e)"
  have s: "0 < s" unfolding s_def by (rule pow2_pos)
  have "power_int 2 (e + 1) * s = (power_int 2 (e + 1 + (52 - e)) :: rat)"
    unfolding s_def by (rule power_int_add [symmetric]) simp
  also have "e + 1 + (52 - e) = 53" by simp
  finally have p: "power_int 2 (e + 1) * s = of_int (2 ^ 53)" by simp
  from ilog2_bounds(2) [OF assms] s have "x * s \<le> power_int 2 (e + 1) * s"
    unfolding e_def by simp
  then have "rne (x * s) \<le> 2 ^ 53" unfolding p by (rule rne_le)
  then have "(of_int (rne (x * s)) :: rat) \<le> of_int (2 ^ 53)" by (simp only: of_int_le_iff)
  with s have "of_int (rne (x * s)) / s \<le> of_int (2 ^ 53) / s" by (simp add: divide_right_mono)
  also from s p have "of_int (2 ^ 53) / s = power_int 2 (e + 1)"
    by (simp add: field_simps)
  finally show ?thesis
    unfolding fl_pos_eq [OF assms] s_def e_def .
qed

lemma fl_le_double:
  assumes x: "0 < x" and le: "x \<le> b"
      and dbl: "b * power_int 2 (52 - ilog2 b) = of_int n"
  shows "fl x \<le> b"
proof (cases "ilog2 x = ilog2 b")
  case True
  define s :: rat where "s = power_int 2 (52 - ilog2 x)"
  have s: "0 < s" unfolding s_def by (rule pow2_pos)
  from dbl True have bs: "b * s = of_int n" by (simp add: s_def)
  from le s have "x * s \<le> b * s" by simp
  then have "rne (x * s) \<le> n" unfolding bs by (rule rne_le)
  then have "(of_int (rne (x * s)) :: rat) \<le> of_int n" by (simp only: of_int_le_iff)
  with s have "of_int (rne (x * s)) / s \<le> of_int n / s" by (simp add: divide_right_mono)
  also from s bs have "of_int n / s = b" by (simp add: field_simps)
  finally show ?thesis unfolding fl_pos_eq [OF x] s_def .
next
  case False
  with ilog2_mono [OF x le] have "ilog2 x + 1 \<le> ilog2 b" by simp
  then have "(power_int 2 (ilog2 x + 1) :: rat) \<le> power_int 2 (ilog2 b)"
    by (intro power_int_increasing) simp_all
  moreover from x le have "0 < b" by simp
  ultimately show ?thesis
    using fl_le_next_power [OF x] ilog2_bounds(1) [of b] by linarith
qed

lemma ilog2_1: "ilog2 1 = 0"
  by code_simp

lemma ilog2_100: "ilog2 100 = 6"
  by code_simp

lemma fl_le_1:
  assumes "0 \<le> x" and "x \<le> 1"
  shows "fl x \<le> 1"
proof (cases "x = 0")
  case True
  then show ?thesis by (simp add: fl_def)
next
  case False
  with assms have "0 < x" by simp
  moreover have "(1::rat) * power_int 2 (52 - ilog2 1) = of_int (2 ^ 52)"
    by (simp add: ilog2_1)
  ultimately show ?thesis using assms(2) by (intro fl_le_double)
qed

lemma fl_le_100:
  assumes "0 \<le> x" and "x \<le> 100"
  shows "fl x \<le> 100"
proof (cases "x = 0")
  case True
  then show ?thesis by (simp add: fl_def)
next
  case False
  with assms have "0 < x" by simp
  moreover have "(100::rat) * power_int 2 (52 - ilog2 100) = of_int (100 * 2 ^ 46)"
    by (simp add: ilog2_100)
  ultimately show ?thesis using assms(2) by (intro fl_le_double)
qed

lemma rate_range:
  assumes "c \<le> t" and "0 < t"
  shows "0 \<le> Math_round (js_mul (js_div (of_nat c) (of_nat t)) 100)"
    and "Math_round (js_mul (js_div (of_nat c) (of_nat t)) 100) \<le> 100"
proof -
  define x :: rat where "x = of_nat c / of_nat t"
  from assms have x: "0 \<le> x" "x \<le> 1" by (simp_all add: x_def)
  then have y: "0 \<le> fl x" "fl x \<le> 1" by (simp_all add: fl_nonneg fl_le_1)
  then have "0 \<le> fl x * 100" "fl x * 100 \<le> 100" by simp_all
  then have w: "0 \<le> fl (fl x * 100)" "fl (fl x * 100) \<le> 100"
    by (simp_all add: fl_nonneg fl_le_100)
  have e: "js_mul (js_div (of_nat c) (of_nat t)) 100 = fl (fl x * 100)"
    by (simp add: js_mul_def js_div_def x_def)
  from w show "0 \<le> Math_round (js_mul (js_div (of_nat c) (of_nat t)) 100)"
    unfolding e Math_round_def by simp
  from w have "fl (fl x * 100) + 1 / 2 < of_int 101" by simp
  then show "Math_round (js_mul (js_div (of_nat c) (of_nat t)) 100) \<le> 100"
    unfolding e Math_round_def by (simp add: floor_less_iff)
qed

subsection \<open>Statistics\<close>

lemma count_partition:
  assumes "\<forall>d\<in>set docs. ownerId d = Val u \<longrightarrow> is_val (isCompleted d)"
  shows "countAsync [OwnerIdEq u, IsCompletedEq True] docs
       + countAsync [OwnerIdEq u, IsCompletedEq False] docs = countAsync [OwnerIdEq u] docs"
  using assms
proof (induction docs)
  case Nil
  then show ?case by (simp add: countAsync_def)
next
  case (Cons d docs)
  then have ih: "countAsync [OwnerIdEq u, IsCompletedEq True] docs
       + countAsync [OwnerIdEq u, IsCompletedEq False] docs = countAsync [OwnerIdEq u] docs"
    by simp
  from Cons.prems have "ownerId d = Val u \<Longrightarrow> isCompleted d = Val True \<or> isCompleted d = Val False"
    by (cases "isCompleted d") auto
  with ih show ?case
    by (auto simp: countAsync_def matches_def)
qed

lemma count_mono:
  assumes "set sel \<subseteq> set sel'"
  shows "countAsync sel' docs \<le> countAsync sel docs"
proof -
  have "matches sel' d \<Longrightarrow> matches sel d" for d
    using assms by (auto simp: matches_def list_all_iff)
  then have "filter (matches sel') docs = filter (matches sel') (filter (matches sel) docs)"
    by (auto simp: filter_filter intro: filter_cong)
  then have "length (filter (matches sel') docs) \<le> length (filter (matches sel) docs)"
    by (metis length_filter_le)
  then show ?thesis by (simp add: countAsync_def)
qed

lemma getEventStats_calculateStats:
  assumes "authenticated e"
  shows "getEventStats e docs
       = Inr (stats.truncate (calculateStats e (the_user e) docs))"
  using assms by (simp add: getEventStats_def calculateStats_def stats.truncate_def Let_def)

lemma calculateStats_consistent:
  assumes "\<forall>d\<in>set docs. ownerId d = Val u \<longrightarrow> is_val (isCompleted d)"
  shows "consistent (stats.truncate (calculateStats h u docs))"
proof -
  define s where "s = stats.truncate (calculateStats h u docs)"
  define start where "start = setHours (tz h) (new_Date (Val (now h 0))) 0 0 0 0"
  define stop where "stop = setHours (tz h) (new_Date (Val (now h 0))) 23 59 59 999"
  have t: "total s = countAsync [OwnerIdEq u] docs"
    and c: "completed s = countAsync [OwnerIdEq u, IsCompletedEq True] docs"
    and p: "pending s = countAsync [OwnerIdEq u, IsCompletedEq False] docs"
    and tt: "today_total (today s)
        = countAsync [OwnerIdEq u, ScheduledAtGte start, ScheduledAtLte stop] docs"
    and tc: "today_completed (today s)
        = countAsync [OwnerIdEq u, IsCompletedEq True, ScheduledAtGte start, ScheduledAtLte stop] docs"
    and tr: "today_remaining (today s)
        = int (today_total (today s)) - int (today_completed (today s))"
    and r: "completionRate s =
        (if total s > 0
         then Math_round (js_mul (js_div (of_nat (completed s)) (of_nat (total s))) 100) else 0)"
    by (simp_all add: s_def calculateStats_def stats.truncate_def Let_def start_def stop_def)
  have sum: "completed s + pending s = total s"
    unfolding t c p using assms by (rule count_partition)
  have le: "today_completed (today s) \<le> today_total (today s)"
    unfolding tt tc by (rule count_mono) auto
  from sum have cle: "completed s \<le> total s" by simp
  have rate: "0 \<le> completionRate s \<and> completionRate s \<le> 100"
  proof (cases "total s > 0")
    case True
    with cle show ?thesis unfolding r by (simp add: rate_range)
  next
    case False
    then show ?thesis unfolding r by simp
  qed
  from sum le tr rate show ?thesis by (simp add: consistent_def s_def)
qed

text \<open>
  C10. When \<^verbatim>\<open>isCompleted\<close> is a boolean on every event of the owner, the snapshot that
  \<^verbatim>\<open>calculateStats\<close> computes for the publication (on any host \<open>h\<close>), and the one that
  \<^verbatim>\<open>getEventStats\<close> returns to the logged-in owner, are consistent: completed and pending add up to the total, the
  completed events of today are at most the events of today, so that what remains of today
  is their difference and not negative, and the completion rate lies between 0 and 100.
\<close>

theorem stats_consistent:
  assumes "\<forall>d\<in>set docs. ownerId d = Val u \<longrightarrow> is_val (isCompleted d)"
  shows "consistent (stats.truncate (calculateStats h u docs))
       \<and> (authenticated e \<and> the_user e = u \<longrightarrow>
            (\<exists>s. getEventStats e docs = Inr s \<and> consistent s))"
proof (intro conjI impI)
  show "consistent (stats.truncate (calculateStats h u docs))"
    using assms by (rule calculateStats_consistent)
next
  assume a: "authenticated e \<and> the_user e = u"
  from assms have "consistent (stats.truncate (calculateStats e u docs))"
    by (rule calculateStats_consistent)
  with a show "\<exists>s. getEventStats e docs = Inr s \<and> consistent s"
    by (simp add: getEventStats_calculateStats)
qed

text \<open>Eight events of Alice, one of them completed.\<close>

theorem stats_consistent_witness:
  "is_val (isCompleted (nth_event 1 0)) \<and> is_val (isCompleted (nth_event 1 7))
   \<and> authenticated alice \<and> the_user alice = ''alice''
   \<and> consistent (stats.truncate (calculateStats alice_ticking ''alice'' (events_of 1 8)))
   \<and> (\<exists>s. getEventStats alice (events_of 1 8) = Inr s \<and> consistent s \<and> total s = 8)"
proof -
  have h: "\<forall>d\<in>set (events_of 1 8). ownerId d = Val ''alice'' \<longrightarrow> is_val (isCompleted d)"
    by (simp add: events_of_def nth_event_def)
  have a: "authenticated alice \<and> the_user alice = ''alice''"
    by (simp add: authenticated_def the_user_def alice_def)
  have v: "is_val (isCompleted (nth_event 1 0)) \<and> is_val (isCompleted (nth_event 1 7))"
    by (simp add: nth_event_def)
  from stats_consistent [OF h, of alice_ticking alice] a
  obtain s where s: "getEventStats alice (events_of 1 8) = Inr s" "consistent s"
      and c: "consistent (stats.truncate (calculateStats alice_ticking ''alice'' (events_of 1 8)))"
    by blast
  have "getEventStats alice (events_of 1 8)
      = Inr (stats.truncate (calculateStats alice (the_user alice) (events_of 1 8)))"
    using a by (simp add: getEventStats_calculateStats)
  moreover have "total (stats.truncate (calculateStats alice (the_user alice) (events_of 1 8))) = 8"
    by code_simp
  ultimately have "total s = 8" using s(1) by simp
  with s c a v show ?thesis by blast
qed

lemma count_owned:
  assumes "\<And>d. ownerId d = Val u \<Longrightarrow> matches sel d = P d"
  shows "countAsync (OwnerIdEq u # sel) docs = length (filter P (owned u docs))"
proof -
  have "filter (matches (OwnerIdEq u # sel)) docs = filter P (filter (\<lambda>d. ownerId d = Val u) docs)"
    unfolding filter_filter using assms by (intro filter_cong) (auto simp: matches_def)
  then show ?thesis by (simp add: countAsync_def owned_def)
qed

lemma setHours_day:
  "setHours z (new_Date (Val (Time n))) 0 0 0 0 = startOfDay z n"
  "setHours z (new_Date (Val (Time n))) 23 59 59 999 = endOfDay z n"
  by (simp_all add: setHours_def new_Date_def startOfDay_def endOfDay_def local_instant_def
      MakeDate_def MakeTime_def msPerDay_def)

text \<open>
  In Paris the 31st of March 2024 has 23 hours: it runs from 2024-03-30T23:00Z to
  2024-03-31T21:59:59.999Z, and \<^verbatim>\<open>setHours\<close> gives these two instants at 10:13Z of that day.
\<close>

lemma setHours_short_day:
  "setHours paris (Time 1711880000000) 0 0 0 0 = Time 1711839600000"
  "setHours paris (Time 1711880000000) 23 59 59 999 = Time 1711922399999"
  "startOfDay paris 1711880000000 = Time 1711839600000"
  "endOfDay paris 1711880000000 = Time (1711839600000 + 82799999)"
  by code_simp+

lemma is_completed_iff: "is_completed d \<longleftrightarrow> isCompleted d = Val True"
  by (cases "isCompleted d") (auto simp: is_completed_def)

lemma matches_today:
  "matches [ScheduledAtGte (startOfDay z n), ScheduledAtLte (endOfDay z n)] d = is_today z n d"
  by (cases "scheduledAt d") (simp_all add: matches_def is_today_def)

lemma matches_today_done:
  "matches [IsCompletedEq True, ScheduledAtGte (startOfDay z n), ScheduledAtLte (endOfDay z n)] d
     = (is_today z n d \<and> is_completed d)"
  using matches_today [of z n d] by (auto simp: matches_def is_completed_iff)

lemma not_completed_iff:
  assumes "is_val (isCompleted d)"
  shows "\<not> is_completed d \<longleftrightarrow> isCompleted d = Val False"
  using assms by (cases "isCompleted d") (auto simp: is_completed_def)

lemma rne_err: "\<bar>of_int (rne y) - y\<bar> \<le> 1 / 2"
proof -
  define f where "f = \<lfloor>y\<rfloor>"
  have "of_int f \<le> y" "y < of_int f + 1" unfolding f_def by linarith+
  then show ?thesis
    unfolding rne_def f_def [symmetric] Let_def by (auto simp: abs_if)
qed

lemma fl_err:
  assumes "0 < v"
  shows "\<bar>fl v - v\<bar> \<le> v / 2 ^ 53"
proof -
  define s :: rat where "s = power_int 2 (52 - ilog2 v)"
  have s: "0 < s" unfolding s_def by (rule pow2_pos)
  have "power_int 2 (ilog2 v) * s = (power_int 2 (ilog2 v + (52 - ilog2 v)) :: rat)"
    unfolding s_def by (rule power_int_add [symmetric]) simp
  also have "ilog2 v + (52 - ilog2 v) = 52" by simp
  finally have p: "power_int 2 (ilog2 v) * s = 2 ^ 52" by simp
  from ilog2_bounds(1) [OF assms] s have "power_int 2 (ilog2 v) * s \<le> v * s" by simp
  then have big: "2 ^ 52 \<le> v * s" unfolding p .
  have "fl v - v = (of_int (rne (v * s)) - v * s) / s"
    unfolding fl_pos_eq [OF assms] s_def [symmetric] using s by (simp add: field_simps)
  then have "\<bar>fl v - v\<bar> = \<bar>of_int (rne (v * s)) - v * s\<bar> / s"
    using s by (simp add: abs_divide)
  also have "\<dots> \<le> (1 / 2) / s"
    using s rne_err [of "v * s"] by (intro divide_right_mono) simp_all
  also have "(1 / 2) / s \<le> v / 2 ^ 53"
  proof -
    from big s have a: "2 ^ 52 / s \<le> v" by (simp add: pos_divide_le_eq)
    have "(1 / 2) / s = (2 ^ 52 / s) / 2 ^ 53" by simp
    also from a have "\<dots> \<le> v / 2 ^ 53" by (intro divide_right_mono) simp_all
    finally show ?thesis .
  qed
  finally show ?thesis .
qed

lemma rate_nearest:
  assumes "c \<le> t" and "0 < t" and "t < 2 ^ 44"
  shows "\<bar>2 * int t * Math_round (js_mul (js_div (of_nat c) (of_nat t)) 100) - 200 * int c\<bar>
           \<le> int t"
proof (cases "c = 0")
  case True
  have "\<lfloor>1 / 2 :: rat\<rfloor> = 0" by (simp add: floor_eq_iff)
  then have "Math_round (js_mul (js_div 0 (of_nat t)) 100) = 0"
    by (simp add: js_mul_def js_div_def fl_def Math_round_def)
  with True show ?thesis by simp
next
  case False
  define C :: rat where "C = of_nat c"
  define T :: rat where "T = of_nat t"
  define x where "x = C / T"
  define y where "y = fl x"
  define w where "w = fl (y * 100)"
  define R where "R = Math_round (js_mul (js_div (of_nat c) (of_nat t)) 100)"
  define eps :: rat where "eps = 200 / 2 ^ 53"
  from assms False have T: "0 < T" and C: "0 < C" "C \<le> T"
    by (simp_all add: C_def T_def)
  then have x: "0 < x" "x \<le> 1" by (simp_all add: x_def)
  have xT: "T * x = C" using T by (simp add: x_def)
  have R: "R = \<lfloor>w + 1 / 2\<rfloor>"
    by (simp add: R_def w_def y_def x_def C_def T_def js_mul_def js_div_def Math_round_def)
  from x have "x / 2 ^ 53 \<le> 1 / 2 ^ 53" by (intro divide_right_mono) simp_all
  with fl_err [OF x(1)] have e1: "\<bar>y - x\<bar> \<le> 1 / 2 ^ 53" unfolding y_def by linarith
  from x(1) fl_err [OF x(1)] have "x - x / 2 ^ 53 \<le> y" unfolding y_def by linarith
  moreover from x(1) have "0 < x - x / 2 ^ 53" by (simp add: field_simps)
  ultimately have ypos: "0 < y" by linarith
  from x have y1: "y \<le> 1" unfolding y_def by (intro fl_le_1) simp_all
  from ypos have y100: "0 < y * 100" by simp
  from y1 have "y * 100 / 2 ^ 53 \<le> 100 / 2 ^ 53" by (intro divide_right_mono) simp_all
  with fl_err [OF y100] have e2: "\<bar>w - y * 100\<bar> \<le> 100 / 2 ^ 53" unfolding w_def by linarith
  from e1 have "\<bar>y * 100 - x * 100\<bar> \<le> 100 / 2 ^ 53"
    by (simp add: abs_if split: if_splits)
  with e2 have e: "\<bar>w - x * 100\<bar> \<le> eps" unfolding eps_def by linarith
  have "T < 2 ^ 44"
  proof -
    from assms(3) have "(of_nat t :: rat) < of_nat (2 ^ 44)" by (simp only: of_nat_less_iff)
    then show ?thesis by (simp add: T_def)
  qed
  then have "400 * T < 400 * 2 ^ 44" by simp
  also have "(400 :: rat) * 2 ^ 44 < 2 ^ 53" by simp
  finally have "400 * T / 2 ^ 53 < 1" by simp
  then have small: "2 * T * eps < 1" by (simp add: eps_def)
  have fl: "of_int R \<le> w + 1 / 2" "w + 1 / 2 < of_int R + 1"
    unfolding R by linarith+
  have two: "2 * T * (x * 100 + 1 / 2) = 200 * C + T"
    using xT by (simp add: algebra_simps)
  have two': "2 * T * (x * 100 - 1 / 2) = 200 * C - T"
    using xT by (simp add: algebra_simps)
  from fl(1) e have "of_int R \<le> x * 100 + 1 / 2 + eps" by linarith
  with T have "2 * T * of_int R \<le> 2 * T * (x * 100 + 1 / 2 + eps)"
    by (intro mult_left_mono) simp_all
  also have "\<dots> = 200 * C + T + 2 * T * eps"
    using two by (simp add: algebra_simps)
  also from small have "\<dots> < 200 * C + T + 1" by simp
  finally have "(of_int (2 * int t * R) :: rat) < of_int (200 * int c + int t + 1)"
    by (simp add: C_def T_def)
  then have up: "2 * int t * R < 200 * int c + int t + 1" by (simp only: of_int_less_iff)
  from fl(2) e have "x * 100 - 1 / 2 - eps < of_int R" by linarith
  with T have "2 * T * (x * 100 - 1 / 2 - eps) < 2 * T * of_int R"
    by (intro mult_strict_left_mono) simp_all
  moreover have "2 * T * (x * 100 - 1 / 2 - eps) = 200 * C - T - 2 * T * eps"
    using two' by (simp add: algebra_simps)
  ultimately have "200 * C - T - 1 < 2 * T * of_int R" using small by linarith
  then have "(of_int (200 * int c - int t - 1) :: rat) < of_int (2 * int t * R)"
    by (simp add: C_def T_def)
  then have lo: "200 * int c - int t - 1 < 2 * int t * R" by (simp only: of_int_less_iff)
  from up lo show ?thesis unfolding R_def by linarith
qed

lemma rate_exact:
  assumes "c \<le> t" and "0 < t" and "t < 2 ^ 44"
      and "\<not> half_way (100 * of_nat c / of_nat t)"
  shows "Math_round (js_mul (js_div (of_nat c) (of_nat t)) 100)
           = round_nearest (100 * of_nat c / of_nat t)"
proof -
  define R where "R = Math_round (js_mul (js_div (of_nat c) (of_nat t)) 100)"
  define x :: rat where "x = 100 * of_nat c / of_nat t"
  define T :: rat where "T = of_nat t"
  have T: "0 < T" using assms(2) by (simp add: T_def)
  have "\<bar>2 * int t * R - 200 * int c\<bar> \<le> int t"
    unfolding R_def using assms(1,2,3) by (rule rate_nearest)
  then have "(of_int \<bar>2 * int t * R - 200 * int c\<bar> :: rat) \<le> of_int (int t)"
    by (simp only: of_int_le_iff)
  then have "\<bar>2 * T * of_int R - 200 * of_nat c\<bar> \<le> T"
    by (simp add: T_def)
  moreover have "2 * T * of_int R - 200 * of_nat c = 2 * T * (of_int R - x)"
    using T by (simp add: x_def T_def field_simps)
  ultimately have "\<bar>2 * T * (of_int R - x)\<bar> \<le> T" by simp
  then have "2 * T * \<bar>of_int R - x\<bar> \<le> T * 1"
    using T by (simp add: abs_mult)
  then have "2 * \<bar>of_int R - x\<bar> \<le> 1"
    using T by (simp only: mult.assoc mult.left_commute [of 2 T] mult_le_cancel_left_pos)
  then have ab: "\<bar>of_int R - x\<bar> \<le> 1 / 2" by simp
  from ab [unfolded abs_le_iff] have near: "of_int R \<le> x + 1 / 2" "x - 1 / 2 \<le> of_int R"
    by linarith+
  have "of_int R \<noteq> x - 1 / 2"
  proof
    assume e: "of_int R = x - 1 / 2"
    then have "of_int R \<le> x" "x < of_int R + 1" by simp_all
    then have "\<lfloor>x\<rfloor> = R" by (simp add: floor_unique)
    with e have "half_way x" by (simp add: half_way_def)
    with assms(4) show False by (simp add: x_def)
  qed
  with near have "of_int R \<le> x + 1 / 2" "x + 1 / 2 < of_int R + 1"
    by linarith+
  then have "\<lfloor>x + 1 / 2\<rfloor> = R" by (simp add: floor_unique)
  then show ?thesis by (simp add: round_nearest_def R_def x_def)
qed

lemma stats_counts:
  "total (calculateStats h u docs) = total (stats_spec (tz h) (clock h 0) u docs)"
  "completed (calculateStats h u docs) = completed (stats_spec (tz h) (clock h 0) u docs)"
  "today (calculateStats h u docs) = today (stats_spec (tz h) (clock h 0) u docs)"
proof -
  let ?z = "tz h" and ?n = "clock h 0"
  have t: "countAsync [OwnerIdEq u] docs = length (owned u docs)"
    using count_owned [of u "[]" "\<lambda>d. True" docs] by (simp add: matches_def)
  have c: "countAsync [OwnerIdEq u, IsCompletedEq True] docs
      = length (filter is_completed (owned u docs))"
    by (rule count_owned) (simp add: matches_def is_completed_iff)
  have tt: "countAsync [OwnerIdEq u, ScheduledAtGte (startOfDay ?z ?n),
                        ScheduledAtLte (endOfDay ?z ?n)] docs
      = length (filter (is_today ?z ?n) (owned u docs))"
    by (rule count_owned) (rule matches_today)
  have tc: "countAsync [OwnerIdEq u, IsCompletedEq True, ScheduledAtGte (startOfDay ?z ?n),
                        ScheduledAtLte (endOfDay ?z ?n)] docs
      = length (filter is_completed (filter (is_today ?z ?n) (owned u docs)))"
    unfolding filter_filter by (rule count_owned) (simp add: matches_today_done conj_commute)
  show "total (calculateStats h u docs) = total (stats_spec ?z ?n u docs)"
    by (simp add: calculateStats_def stats_spec_def Let_def t)
  show "completed (calculateStats h u docs) = completed (stats_spec ?z ?n u docs)"
    by (simp add: calculateStats_def stats_spec_def Let_def c)
  show "today (calculateStats h u docs) = today (stats_spec ?z ?n u docs)"
    by (simp add: calculateStats_def stats_spec_def Let_def now_def setHours_day tt tc)
qed

lemma stats_pending:
  assumes "list_all (\<lambda>d. is_val (isCompleted d)) (owned u docs)"
  shows "pending (calculateStats h u docs) = pending (stats_spec (tz h) (clock h 0) u docs)"
    and "overdue (calculateStats h u docs) = overdue (stats_spec (tz h) (clock h 0) u docs)"
proof -
  from assms have b: "\<And>d. d \<in> set (owned u docs) \<Longrightarrow> (isCompleted d = Val False) = (\<not> is_completed d)"
    by (simp add: list_all_iff not_completed_iff)
  have "countAsync [OwnerIdEq u, IsCompletedEq False] docs
      = length (filter (\<lambda>d. isCompleted d = Val False) (owned u docs))"
    by (rule count_owned) (simp add: matches_def)
  also have "filter (\<lambda>d. isCompleted d = Val False) (owned u docs)
      = filter (\<lambda>d. \<not> is_completed d) (owned u docs)"
    using b by (intro filter_cong) simp_all
  finally show "pending (calculateStats h u docs)
      = pending (stats_spec (tz h) (clock h 0) u docs)"
    by (simp add: calculateStats_def stats_spec_def Let_def)
  have "countAsync [OwnerIdEq u, IsCompletedEq False, ScheduledAtLt (now h 0)] docs
      = length (filter (\<lambda>d. isCompleted d = Val False
                 \<and> (case scheduledAt d of Val t \<Rightarrow> date_lt t (now h 0) | _ \<Rightarrow> False))
               (owned u docs))"
    by (rule count_owned) (simp add: matches_def)
  also have "filter (\<lambda>d. isCompleted d = Val False
                 \<and> (case scheduledAt d of Val t \<Rightarrow> date_lt t (now h 0) | _ \<Rightarrow> False))
               (owned u docs)
      = filter (is_overdue (clock h 0)) (owned u docs)"
    using b unfolding now_def by (intro filter_cong) (simp_all add: is_overdue_def)
  finally show "overdue (calculateStats h u docs)
      = overdue (stats_spec (tz h) (clock h 0) u docs)"
    by (simp add: calculateStats_def stats_spec_def Let_def)
qed

lemma stats_rate:
  assumes "total (stats_spec (tz h) (clock h 0) u docs) < 2 ^ 44"
      and "\<not> half_way (100 * of_nat (completed (stats_spec (tz h) (clock h 0) u docs))
                          / of_nat (total (stats_spec (tz h) (clock h 0) u docs)))"
  shows "completionRate (calculateStats h u docs)
           = completionRate (stats_spec (tz h) (clock h 0) u docs)"
proof -
  define t where "t = length (owned u docs)"
  define c where "c = length (filter is_completed (owned u docs))"
  have sp: "total (stats_spec (tz h) (clock h 0) u docs) = t"
      "completed (stats_spec (tz h) (clock h 0) u docs) = c"
      "completionRate (stats_spec (tz h) (clock h 0) u docs)
         = (if t = 0 then 0 else round_nearest (100 * of_nat c / of_nat t))"
    by (simp_all add: stats_spec_def Let_def t_def c_def)
  have code: "completionRate (calculateStats h u docs)
      = (if t > 0 then Math_round (js_mul (js_div (of_nat c) (of_nat t)) 100) else 0)"
    using stats_counts(1,2) [of h u docs] unfolding sp
    by (simp add: calculateStats_def Let_def)
  have le: "c \<le> t" by (simp add: c_def t_def)
  show ?thesis
  proof (cases "t = 0")
    case True
    then show ?thesis unfolding sp code by simp
  next
    case False
    with le assms [unfolded sp] have "Math_round (js_mul (js_div (of_nat c) (of_nat t)) 100)
        = round_nearest (100 * of_nat c / of_nat t)"
      by (intro rate_exact) simp_all
    with False show ?thesis unfolding sp code by simp
  qed
qed

text \<open>
  C5 (fails on the code). For the logged-in owner, and \<open>now\<close> the clock as the call reads it,
  \<^verbatim>\<open>getEventStats\<close> returns a snapshot \<open>s\<close>. Its total, its number of completed events and its
  numbers of today are the ones the specification gives (\<open>stats_spec\<close>), on every host. Its
  pending and overdue events are counted with \<^verbatim>\<open>isCompleted: false\<close>: they are the ones of the
  specification (\<^verbatim>\<open>!isCompleted\<close>) when \<^verbatim>\<open>isCompleted\<close> is a boolean on every event of the owner.
  Its rate \<^verbatim>\<open>Math.round((completed / total) * 100)\<close> is computed in double precision: it is the
  rounded percentage of the specification (below 2^44 events) whenever that percentage
  does not lie half way between two integers.

  Both conditions are needed. After \<^verbatim>\<open>update('e2', { isCompleted: null })\<close> event A is neither
  completed nor pending nor overdue for \<^verbatim>\<open>getEventStats\<close>, while the specification counts it
  as pending and overdue. With 23 of 40 events completed the percentage is 57.5: the
  double \<^verbatim>\<open>(23 / 40) * 100\<close> is 57.49999999999999 and the rate is 57, not 58.
\<close>

theorem getEventStats_snapshot:
  assumes "authenticated e"
  shows "(\<exists>s. getEventStats e docs = Inr s
            \<and> total s = total (stats_spec (tz e) (clock e 0) (the_user e) docs)
            \<and> completed s = completed (stats_spec (tz e) (clock e 0) (the_user e) docs)
            \<and> today s = today (stats_spec (tz e) (clock e 0) (the_user e) docs)
            \<and> (list_all (\<lambda>d. is_val (isCompleted d)) (owned (the_user e) docs) \<longrightarrow>
                 pending s = pending (stats_spec (tz e) (clock e 0) (the_user e) docs)
                 \<and> overdue s = overdue (stats_spec (tz e) (clock e 0) (the_user e) docs))
            \<and> (total (stats_spec (tz e) (clock e 0) (the_user e) docs) < 2 ^ 44
                 \<and> \<not> half_way
                      (100 * of_nat (completed (stats_spec (tz e) (clock e 0) (the_user e) docs))
                         / of_nat (total (stats_spec (tz e) (clock e 0) (the_user e) docs))) \<longrightarrow>
                 completionRate s
                   = completionRate (stats_spec (tz e) (clock e 0) (the_user e) docs)))
       \<and> updateEvent alice_later [inserted_A] ''e2'' (empty_event\<lparr> isCompleted := Null \<rparr>)
           = (Inr True, [inserted_A_unset])
       \<and> getEventStats alice_later [inserted_A_unset]
           = Inr \<lparr> total = 1, completed = 0, pending = 0, overdue = 0,
                   today = \<lparr> today_total = 0, today_completed = 0, today_remaining = 0 \<rparr>,
                   completionRate = 0 \<rparr>
       \<and> pending (stats_spec (fixed_offset 0) 1706800000000 ''alice'' [inserted_A_unset]) = 1
       \<and> overdue (stats_spec (fixed_offset 0) 1706800000000 ''alice'' [inserted_A_unset]) = 1
       \<and> getEventStats alice (events_of 23 40)
           = Inr \<lparr> total = 40, completed = 23, pending = 17, overdue = 17,
                   today = \<lparr> today_total = 40, today_completed = 23, today_remaining = 17 \<rparr>,
                   completionRate = 57 \<rparr>
       \<and> js_mul (js_div 23 40) 100 = 8092405580431359 / 140737488355328
       \<and> completionRate (stats_spec (fixed_offset 0) 1706700000000 ''alice'' (events_of 23 40))
           = 58"
proof -
  define s where "s = stats.truncate (calculateStats e (the_user e) docs)"
  have run: "getEventStats e docs = Inr s"
    using assms by (simp add: getEventStats_calculateStats s_def)
  have sel: "total s = total (calculateStats e (the_user e) docs)"
      "completed s = completed (calculateStats e (the_user e) docs)"
      "pending s = pending (calculateStats e (the_user e) docs)"
      "overdue s = overdue (calculateStats e (the_user e) docs)"
      "today s = today (calculateStats e (the_user e) docs)"
      "completionRate s = completionRate (calculateStats e (the_user e) docs)"
    by (simp_all add: s_def stats.truncate_def)
  have general: "\<exists>s. getEventStats e docs = Inr s
            \<and> total s = total (stats_spec (tz e) (clock e 0) (the_user e) docs)
            \<and> completed s = completed (stats_spec (tz e) (clock e 0) (the_user e) docs)
            \<and> today s = today (stats_spec (tz e) (clock e 0) (the_user e) docs)
            \<and> (list_all (\<lambda>d. is_val (isCompleted d)) (owned (the_user e) docs) \<longrightarrow>
                 pending s = pending (stats_spec (tz e) (clock e 0) (the_user e) docs)
                 \<and> overdue s = overdue (stats_spec (tz e) (clock e 0) (the_user e) docs))
            \<and> (total (stats_spec (tz e) (clock e 0) (the_user e) docs) < 2 ^ 44
                 \<and> \<not> half_way
                      (100 * of_nat (completed (stats_spec (tz e) (clock e 0) (the_user e) docs))
                         / of_nat (total (stats_spec (tz e) (clock e 0) (the_user e) docs))) \<longrightarrow>
                 completionRate s
                   = completionRate (stats_spec (tz e) (clock e 0) (the_user e) docs))"
    using run unfolding sel
    by (intro exI [of _ s] conjI impI)
       (simp_all add: sel stats_counts stats_pending stats_rate)
  have u: "updateEvent alice_later [inserted_A] ''e2'' (empty_event\<lparr> isCompleted := Null \<rparr>)
           = (Inr True, [inserted_A_unset])"
    by code_simp
  have g: "getEventStats alice_later [inserted_A_unset]
           = Inr \<lparr> total = 1, completed = 0, pending = 0, overdue = 0,
                   today = \<lparr> today_total = 0, today_completed = 0, today_remaining = 0 \<rparr>,
                   completionRate = 0 \<rparr>"
    by code_simp
  have sp: "pending (stats_spec (fixed_offset 0) 1706800000000 ''alice'' [inserted_A_unset]) = 1"
      "overdue (stats_spec (fixed_offset 0) 1706800000000 ''alice'' [inserted_A_unset]) = 1"
    by code_simp+
  have r: "getEventStats alice (events_of 23 40)
           = Inr \<lparr> total = 40, completed = 23, pending = 17, overdue = 17,
                   today = \<lparr> today_total = 40, today_completed = 23, today_remaining = 17 \<rparr>,
                   completionRate = 57 \<rparr>"
    by code_simp
  have j: "js_mul (js_div 23 40) 100 = 8092405580431359 / 140737488355328"
    by code_simp
  have k: "completionRate (stats_spec (fixed_offset 0) 1706700000000 ''alice'' (events_of 23 40))
           = 58"
    by code_simp
  from general u g sp r j k show ?thesis by blast
qed

text \<open>Four events of today, one of them completed: 25 per cent.\<close>

theorem getEventStats_snapshot_witness:
  "authenticated alice
   \<and> list_all (\<lambda>d. is_val (isCompleted d)) (owned (the_user alice) (events_of 1 4))
   \<and> total (stats_spec (tz alice) (clock alice 0) (the_user alice) (events_of 1 4)) < 2 ^ 44
   \<and> \<not> half_way (100 * 1 / 4)
   \<and> getEventStats alice (events_of 1 4)
       = Inr \<lparr> total = 4, completed = 1, pending = 3, overdue = 3,
               today = \<lparr> today_total = 4, today_completed = 1, today_remaining = 3 \<rparr>,
               completionRate = 25 \<rparr>"
proof -
  have a: "authenticated alice" by (simp add: authenticated_def alice_def)
  have b: "list_all (\<lambda>d. is_val (isCompleted d)) (owned (the_user alice) (events_of 1 4))"
    by code_simp
  have sp: "stats_spec (tz alice) (clock alice 0) (the_user alice) (events_of 1 4)
      = \<lparr> total = 4, completed = 1, pending = 3, overdue = 3,
          today = \<lparr> today_total = 4, today_completed = 1, today_remaining = 3 \<rparr>,
          completionRate = 25 \<rparr>"
    by code_simp
  have h: "\<not> half_way (100 * 1 / 4)"
    by code_simp
  from getEventStats_snapshot [OF a, of "events_of 1 4"] b h
  obtain s where s: "getEventStats alice (events_of 1 4) = Inr s"
      "total s = 4" "completed s = 1" "pending s = 3" "overdue s = 3"
      "today s = \<lparr> today_total = 4, today_completed = 1, today_remaining = 3 \<rparr>"
      "completionRate s = 25"
    unfolding sp by auto
  then have "s = \<lparr> total = 4, completed = 1, pending = 3, overdue = 3,
          today = \<lparr> today_total = 4, today_completed = 1, today_remaining = 3 \<rparr>,
          completionRate = 25 \<rparr>"
    by (cases s) simp
  moreover have "total (stats_spec (tz alice) (clock alice 0) (the_user alice) (events_of 1 4))
      < 2 ^ 44"
    unfolding sp by simp
  ultimately show ?thesis using a b h s(1) by simp
qed

end
